theory Spec2Isabelle
  imports Main
begin

section \<open>Errors, panics and call outcomes\<close>

text \<open>
  Go's \<open>error\<close> interface values that the messaging code produces: a plain formatted
  error (\<open>fmt.Errorf\<close> without \<open>%w\<close>, or any error handed back by a library), a wrapping
  error (\<open>fmt.Errorf("...: %w", err)\<close>) and the package's own \<open>*PanicError\<close>.
\<close>

datatype error =
    Errorf string
  | Wrapf string error
  | PanicError string

fun Error :: "error \<Rightarrow> string" where
  "Error (Errorf s) = s"
| "Error (Wrapf p e) = p @ Error e"
| "Error (PanicError m) = ''panic: '' @ m"

text \<open>
  The dynamic value handed to \<open>panic\<close>: an \<open>error\<close>, a \<open>string\<close>, or a value of any other
  type. Under the module's Go version (1.21) \<open>panic(nil)\<close> raises a
  \<open>*runtime.PanicNilError\<close>, which is an \<open>error\<close>, so a panic value is never nil.
\<close>

datatype panic_value =
    PError error
  | PString string
  | POther

text \<open>
  How a call ends: it returns a value, it panics (the panic unwinds to the caller unless a
  deferred function recovers it), or it never returns (blocked on a lock or a wait).
\<close>

datatype 'a outcome =
    Returns 'a
  | Panics panic_value
  | Blocks

section \<open>The startup retrier (package safe)\<close>

fun recoverToError :: "panic_value \<Rightarrow> error" where
  "recoverToError (PError v) = v"
| "recoverToError (PString v) = PanicError v"
| "recoverToError POther = PanicError ''unknown panic''"

text \<open>
  Durations are nanoseconds, as \<open>time.Duration\<close>. One run of \<open>Try\<close> calls \<open>fn\<close> one call
  after the other; the \<open>k\<close>-th call (counted from 1, as \<open>attempt\<close>) ends with \<open>result\<close>
  after \<open>took\<close> nanoseconds on the monotonic clock. \<open>time.Sleep d\<close> advances the clock by
  \<open>d\<close>.
\<close>

type_synonym duration = int

definition Second :: duration where
  "Second = 1000000000"

record fn_call =
  result :: "error option outcome"
  took :: nat

datatype try_event =
    Invoke nat
  | Sleep duration

record try_run =
  ret :: "error option outcome"
  attempts :: nat
  elapsed :: duration
  events :: "try_event list"

text \<open>
  The anonymous function inside the loop: \<open>err = fn()\<close> under a deferred function that
  calls \<open>recover()\<close>. \<open>recover()\<close> yields nil when \<open>fn\<close> returned, and the panic value when
  it panicked; in the latter case \<open>err\<close> is overwritten and the closure returns normally.
  A call of \<open>fn\<close> that never returns leaves the closure blocked.
\<close>

definition recover :: "'a outcome \<Rightarrow> panic_value option" where
  "recover c = (case c of Panics r \<Rightarrow> Some r | _ \<Rightarrow> None)"

definition guarded_call :: "error option outcome \<Rightarrow> error option outcome" where
  "guarded_call c =
     (case c of
        Blocks \<Rightarrow> Blocks
      | _ \<Rightarrow>
        (let err = (case c of Returns e \<Rightarrow> e | _ \<Rightarrow> None)
         in case recover c of
              Some r \<Rightarrow> Returns (Some (recoverToError r))
            | None \<Rightarrow> Returns err))"

definition backoff_of :: "nat \<Rightarrow> duration" where
  "backoff_of attempt =
     (let backoff = int attempt * Second
      in if backoff > 30 * Second then 30 * Second else backoff)"

function Try_loop ::
  "(nat \<Rightarrow> fn_call) \<Rightarrow> duration \<Rightarrow> nat \<Rightarrow> duration \<Rightarrow> try_event list \<Rightarrow> try_run" where
  "Try_loop fn maxDuration attempt0 since evs =
     (let attempt = attempt0 + 1;
          c = fn attempt;
          since1 = since + int (took c);
          evs1 = evs @ [Invoke attempt]
      in case guarded_call (result c) of
           Panics r \<Rightarrow> \<lparr>ret = Panics r, attempts = attempt, elapsed = since1, events = evs1\<rparr>
         | Blocks \<Rightarrow> \<lparr>ret = Blocks, attempts = attempt, elapsed = since1, events = evs1\<rparr>
         | Returns None \<Rightarrow>
             \<lparr>ret = Returns None, attempts = attempt, elapsed = since1, events = evs1\<rparr>
         | Returns (Some err) \<Rightarrow>
             if since1 \<ge> maxDuration
             then \<lparr>ret = Returns (Some err), attempts = attempt, elapsed = since1,
                   events = evs1\<rparr>
             else Try_loop fn maxDuration attempt (since1 + backoff_of attempt)
                    (evs1 @ [Sleep (backoff_of attempt)]))"
  by pat_completeness auto
termination
proof (relation "measure (\<lambda>(fn, maxDuration, attempt0, since, evs). nat (maxDuration - since))",
    goal_cases)
  case 1
  show ?case by simp
next
  case (2 fn maxDuration attempt0 since evs attempt c since1 evs1 x2 x2a)
  have "0 < backoff_of attempt"
    using 2(1) by (simp add: backoff_of_def Second_def Let_def)
  moreover have "since \<le> since1" using 2(3) by simp
  ultimately show ?case using 2 by simp
qed

definition Try_run :: "(nat \<Rightarrow> fn_call) \<Rightarrow> duration \<Rightarrow> try_run" where
  "Try_run fn maxDuration = Try_loop fn maxDuration 0 0 []"

definition Try :: "(nat \<Rightarrow> fn_call) \<Rightarrow> duration \<Rightarrow> error option outcome" where
  "Try fn maxDuration = ret (Try_run fn maxDuration)"

section \<open>The messaging transport (package rabbit)\<close>

subsection \<open>container/ring\<close>

text \<open>
  A \<open>*ring.Ring\<close> held in one place only (a map entry) is the cyclic sequence of its
  \<open>Value\<close>s read from the element the pointer is at: the head of the list is the
  current element, \<open>nil\<close> values are \<open>None\<close>. \<open>r.Next()\<close> turns the sequence by one.
\<close>

type_synonym 'a ring = "'a option list"

definition ring_New :: "nat \<Rightarrow> 'a ring" where
  "ring_New n = replicate n None"

definition ring_Next :: "'a ring \<Rightarrow> 'a ring" where
  "ring_Next r = rotate1 r"

definition ring_Value :: "'a ring \<Rightarrow> 'a option" where
  "ring_Value r = (case r of [] \<Rightarrow> None | v # _ \<Rightarrow> v)"

definition ring_set_Value :: "'a \<Rightarrow> 'a ring \<Rightarrow> 'a ring" where
  "ring_set_Value v r = (case r of [] \<Rightarrow> [] | _ # vs \<Rightarrow> Some v # vs)"

subsection \<open>Package state\<close>

type_synonym bytes = string

record rabbitExpected =
  containerName :: string
  host :: string
  port :: int
  user :: string
  password :: string
  vHost :: string

text \<open>The \<open>chnlLock\<close> struct: \<open>chn\<close> is the channel's identity, \<open>lock\<close> tells whether the
  mutex is held, \<open>rtrn\<close> is the number of confirmation records waiting in the buffered channel (the
  code never looks into a record), \<open>wg\<close> is the WaitGroup counter.\<close>

record chnlLock =
  chn :: nat
  lock :: bool
  rtrn :: nat
  wg :: int
  closed :: bool

text \<open>The keys read through viper at initialisation.\<close>

record settings =
  rabbit_connection_num :: int
  rabbit_publish_num :: int
  rabbit_confirm_len :: int
  exchange_name :: string
  exchange_type :: string

datatype level = ErrorLevel | InfoLevel

text \<open>Every request the package sends to the broker library, and every use of a
  synchronisation primitive of a slot, in the order the code makes them.\<close>

datatype action =
    Dial string
  | OpenChannel nat
  | ExchangeDeclare nat string string bool bool bool bool
  | CloseChannel nat
  | Confirm nat bool
  | NotifyPublish nat nat int
  | GoPublishConfirm nat
  | QueueDeclare nat string bool bool bool bool
  | RingAdvance string nat
  | SlotLock nat
  | SlotUnlock nat
  | WgAdd nat int
  | WgWait nat
  | BasicPublish nat string string bool bool nat string bytes
  | BasicConsume nat string string bool bool bool bool
  | Handle bytes
  | Ack nat bool
  | Nack nat bool bool
  | Logrus level string
  | HealthzRegister

text \<open>
  The package-level variables, the heap of \<open>chnlLock\<close> objects (addressed by number, as
  the ring stores pointers to them), and the world outside:
  \<^item> \<open>replies\<close>: what the broker library answers to the fallible requests still to come,
    in order (\<open>None\<close>: success); once the list is used up every request succeeds;
  \<^item> \<open>serverNamed ch\<close>: the name the broker makes up for a queue that is declared on
    channel \<open>ch\<close> with the empty name;
  \<^item> \<open>closeListener c\<close>: whether connection \<open>c\<close> has been handed the \<open>notifyClose\<close> buffer
    through \<open>NotifyClose\<close>, the only way a closure record can ever reach that buffer;
  \<^item> \<open>fresh\<close>: the next unused identity for a connection, channel or slot;
  \<^item> \<open>trace\<close>: the actions performed so far.
\<close>

record rabbit =
  connRng :: "string \<rightharpoonup> nat ring"
  connRngLock :: bool
  connRngReaders :: nat
  once :: bool
  rng :: "string \<rightharpoonup> nat ring"
  rngLock :: bool
  killCancel :: bool
  rabbitConnExpected :: "rabbitExpected list"
  notifyClose :: "error option list"
  slots :: "nat \<Rightarrow> chnlLock"
  viper :: settings
  healthzRegistered :: bool
  replies :: "error option list"
  serverNamed :: "nat \<Rightarrow> string"
  closeListener :: "nat \<Rightarrow> bool"
  fresh :: nat
  trace :: "action list"

subsection \<open>The world outside the package\<close>

definition emit :: "action \<Rightarrow> rabbit \<Rightarrow> rabbit" where
  "emit a s = s\<lparr>trace := trace s @ [a]\<rparr>"

definition reply :: "rabbit \<Rightarrow> error option \<times> rabbit" where
  "reply s = (case replies s of [] \<Rightarrow> (None, s) | r # rs \<Rightarrow> (r, s\<lparr>replies := rs\<rparr>))"

definition request :: "action \<Rightarrow> rabbit \<Rightarrow> error option \<times> rabbit" where
  "request a s = reply (emit a s)"

text \<open>\<open>amqp.Dial\<close> and \<open>conn.Channel()\<close>: a request that, when it succeeds, creates an object
  with a fresh identity.\<close>

definition create :: "action \<Rightarrow> rabbit \<Rightarrow> (error + nat) \<times> rabbit" where
  "create a s =
     (case request a s of
        (Some err, s1) \<Rightarrow> (Inl err, s1)
      | (None, s1) \<Rightarrow> (Inr (fresh s1), s1\<lparr>fresh := fresh s1 + 1\<rparr>))"

definition amqp_Dial :: "string \<Rightarrow> rabbit \<Rightarrow> (error + nat) \<times> rabbit" where
  "amqp_Dial url s = create (Dial url) s"

definition conn_Channel :: "nat \<Rightarrow> rabbit \<Rightarrow> (error + nat) \<times> rabbit" where
  "conn_Channel conn s = create (OpenChannel conn) s"

text \<open>\<open>ch.QueueDeclare\<close>: a request that, when it succeeds, returns an \<open>amqp.Queue\<close> built
  from the broker's answer. Of its fields only \<open>Name\<close> is ever read. The broker answers with
  the name of the queue: the name that was declared or, when that is empty, a name of its
  own making.\<close>

record Queue =
  Name :: string

definition ch_QueueDeclare ::
  "nat \<Rightarrow> string \<Rightarrow> bool \<Rightarrow> bool \<Rightarrow> bool \<Rightarrow> bool \<Rightarrow> rabbit \<Rightarrow> (error + Queue) \<times> rabbit" where
  "ch_QueueDeclare ch queue durable autoDelete exclusive noWait s =
     (case request (QueueDeclare ch queue durable autoDelete exclusive noWait) s of
        (Some err, s1) \<Rightarrow> (Inl err, s1)
      | (None, s1) \<Rightarrow>
          (Inr \<lparr>Name = (if queue = [] then serverNamed s1 ch else queue)\<rparr>, s1))"

text \<open>The panic values of the runtime: both are \<open>runtime.Error\<close>s, hence \<open>error\<close>s.\<close>

definition nil_dereference :: panic_value where
  "nil_dereference = PError (Errorf ''runtime error: invalid memory address or nil pointer dereference'')"

definition nil_conversion :: panic_value where
  "nil_conversion = PError (Errorf ''interface conversion: interface is nil'')"

definition negative_counter :: panic_value where
  "negative_counter = PString ''sync: negative WaitGroup counter''"

text \<open>What the broker library does when connection \<open>c\<close> is closed by the peer or the
  network with error \<open>e\<close>: it sends \<open>e\<close> to the channels registered on \<open>c\<close> with
  \<open>NotifyClose\<close>. The only such channel this package owns is \<open>notifyClose\<close> (capacity 10).\<close>

definition connection_lost :: "nat \<Rightarrow> error \<Rightarrow> rabbit \<Rightarrow> rabbit" where
  "connection_lost c e s =
     (if closeListener s c \<and> length (notifyClose s) < 10
      then s\<lparr>notifyClose := notifyClose s @ [Some e]\<rparr> else s)"

subsection \<open>Registration and initialisation (init.go)\<close>

text \<open>\<open>%d\<close> of \<open>fmt.Sprintf\<close>.\<close>

definition digit :: "nat \<Rightarrow> char" where
  "digit n = ''0123456789'' ! (n mod 10)"

fun decimal :: "nat \<Rightarrow> string" where
  "decimal n = (if n < 10 then [digit n] else decimal (n div 10) @ [digit (n mod 10)])"

definition Sprintf_d :: "int \<Rightarrow> string" where
  "Sprintf_d i = (if i < 0 then ''-'' @ decimal (nat (- i)) else decimal (nat i))"

text \<open>\<open>fmt.Sprintf("amqp://%s:%s@%s:%d/%s", ...)\<close>.\<close>

definition Sprintf_amqp :: "string \<Rightarrow> string \<Rightarrow> string \<Rightarrow> int \<Rightarrow> string \<Rightarrow> string" where
  "Sprintf_amqp u p h prt v =
     ''amqp://'' @ u @ '':'' @ p @ ''@'' @ h @ '':'' @ Sprintf_d prt @ ''/'' @ v"

definition RegisterRabbit ::
  "string \<Rightarrow> string \<Rightarrow> string \<Rightarrow> string \<Rightarrow> string \<Rightarrow> int \<Rightarrow> rabbit \<Rightarrow> rabbit" where
  "RegisterRabbit cnt h u p v prt s =
     s\<lparr>rabbitConnExpected := rabbitConnExpected s @
         [\<lparr>containerName = cnt, host = h, port = prt, user = u, password = p, vHost = v\<rparr>]\<rparr>"

definition RegisterRabbitMq ::
  "string \<Rightarrow> string \<Rightarrow> int \<Rightarrow> string \<Rightarrow> string \<Rightarrow> string \<Rightarrow> rabbit \<Rightarrow> rabbit" where
  "RegisterRabbitMq nm h prt u p v s = RegisterRabbit nm h u p v prt s"

text \<open>The first loop of \<open>initializeConnection\<close>; the counter is the number of iterations
  left.\<close>

fun dial_loop :: "string \<Rightarrow> string \<Rightarrow> nat \<Rightarrow> rabbit \<Rightarrow> error option outcome \<times> rabbit" where
  "dial_loop nm connString 0 s = (Returns None, s)"
| "dial_loop nm connString (Suc j) s =
     (case amqp_Dial connString s of
        (Inl err, s1) \<Rightarrow> (Returns (Some (Wrapf ''error connecting to rabbit: '' err)), s1)
      | (Inr c, s1) \<Rightarrow>
          (case connRng s1 nm of
             None \<Rightarrow> (Panics nil_dereference, s1)
           | Some r \<Rightarrow>
               dial_loop nm connString j
                 (s1\<lparr>connRng := (connRng s1)(nm \<mapsto> ring_Next (ring_set_Value c r))\<rparr>)))"

text \<open>The second loop: one publish channel, in confirm mode, per slot. The slot object
  \<open>tmp\<close> is allocated at a fresh address; \<open>go publishConfirm(&tmp)\<close> starts its listener.\<close>

fun publish_loop :: "string \<Rightarrow> int \<Rightarrow> nat \<Rightarrow> rabbit \<Rightarrow> error option outcome \<times> rabbit" where
  "publish_loop nm confirmLen 0 s = (Returns None, s)"
| "publish_loop nm confirmLen (Suc j) s =
     (case connRng s nm of
        None \<Rightarrow> (Panics nil_dereference, s)
      | Some cr \<Rightarrow>
          (let s1 = s\<lparr>connRng := (connRng s)(nm \<mapsto> ring_Next cr)\<rparr>
           in case ring_Value (ring_Next cr) of
                None \<Rightarrow> (Panics nil_conversion, s1)
              | Some conn \<Rightarrow>
                  (case conn_Channel conn s1 of
                     (Inl err, s2) \<Rightarrow>
                       (Returns (Some (Wrapf ''error creating publish channel: '' err)), s2)
                   | (Inr pchn, s2) \<Rightarrow>
                       (case request (Confirm pchn False) s2 of
                          (Some err, s3) \<Rightarrow>
                            (Returns (Some (Wrapf ''error enabling confirm mode: '' err)),
                             emit (CloseChannel pchn) s3)
                        | (None, s3) \<Rightarrow>
                            (let tmp = fresh s3;
                                 s4 = emit (NotifyPublish pchn tmp confirmLen) s3;
                                 s5 = s4\<lparr>fresh := tmp + 1,
                                        slots := (slots s4)
                                          (tmp := \<lparr>chn = pchn, lock = False, rtrn = 0, wg = 0,
                                                   closed = False\<rparr>)\<rparr>;
                                 s6 = emit (GoPublishConfirm tmp) s5
                             in case rng s6 nm of
                                  None \<Rightarrow> (Panics nil_dereference, s6)
                                | Some r \<Rightarrow>
                                    publish_loop nm confirmLen j
                                      (s6\<lparr>rng := (rng s6)
                                          (nm \<mapsto> ring_Next (ring_set_Value tmp r))\<rparr>))))))"

definition initializeConnection_locked ::
  "rabbitExpected \<Rightarrow> int \<Rightarrow> string \<Rightarrow> rabbit \<Rightarrow> error option outcome \<times> rabbit" where
  "initializeConnection_locked expected cnt connString s =
     (let nm = containerName expected;
          s1 = s\<lparr>connRng := (connRng s)(nm \<mapsto> ring_New (nat cnt))\<rparr>
      in case dial_loop nm connString (nat cnt) s1 of
           (Returns None, s2) \<Rightarrow>
             (case connRng s2 nm of
                None \<Rightarrow> (Panics nil_dereference, s2)
              | Some cr \<Rightarrow>
                  (let s3 = s2\<lparr>connRng := (connRng s2)(nm \<mapsto> ring_Next cr)\<rparr>
                   in case ring_Value (ring_Next cr) of
                        None \<Rightarrow> (Panics nil_conversion, s3)
                      | Some conn \<Rightarrow>
                          (case conn_Channel conn s3 of
                             (Inl err, s4) \<Rightarrow>
                               (Returns (Some (Wrapf ''error creating channel: '' err)), s4)
                           | (Inr ch, s4) \<Rightarrow>
                               (case request
                                       (ExchangeDeclare ch (exchange_name (viper s4))
                                          (exchange_type (viper s4)) True False False False) s4 of
                                  (Some err, s5) \<Rightarrow>
                                    (Returns (Some (Wrapf ''error declaring exchange: '' err)),
                                     emit (CloseChannel ch) s5)
                                | (None, s5) \<Rightarrow>
                                    (let s6 = emit (CloseChannel ch) s5;
                                         publishNum =
                                           (if rabbit_publish_num (viper s6) < 1 then 1
                                            else rabbit_publish_num (viper s6));
                                         s7 = s6\<lparr>rng := (rng s6)
                                                (nm \<mapsto> ring_New (nat publishNum))\<rparr>;
                                         confirmLen =
                                           (if rabbit_confirm_len (viper s7) < 1 then 100
                                            else rabbit_confirm_len (viper s7))
                                     in publish_loop nm confirmLen (nat publishNum) s7)))))
         | other \<Rightarrow> other)"

text \<open>\<open>initializeConnection\<close>: both package locks are taken for writing and released by
  the deferred function, on return and on panic alike. A lock that is already held blocks
  the call.\<close>

definition initializeConnection ::
  "rabbitExpected \<Rightarrow> rabbit \<Rightarrow> error option outcome \<times> rabbit" where
  "initializeConnection expected s0 =
     (let s = s0\<lparr>killCancel := True\<rparr>;
          cnt = (if rabbit_connection_num (viper s) < 1 then 1
                 else rabbit_connection_num (viper s));
          connString = Sprintf_amqp (user expected) (password expected) (host expected)
                         (port expected) (vHost expected)
      in if connRngLock s \<or> 0 < connRngReaders s then (Blocks, s)
         else let s1 = s\<lparr>connRngLock := True\<rparr>
              in if rngLock s1 then (Blocks, s1)
                 else (case initializeConnection_locked expected cnt connString
                              (s1\<lparr>rngLock := True\<rparr>) of
                         (Blocks, s2) \<Rightarrow> (Blocks, s2)
                       | (res, s2) \<Rightarrow> (res, s2\<lparr>rngLock := False, connRngLock := False\<rparr>)))"

text \<open>The body of the function handed to \<open>once.Do\<close>: the range loop over the registered
  brokers, then the registration of the health check.\<close>

fun Initialize_range :: "rabbitExpected list \<Rightarrow> rabbit \<Rightarrow> unit outcome \<times> rabbit" where
  "Initialize_range [] s =
     (Returns (), emit (Logrus InfoLevel ''Rabbit initialized'')
                    (emit HealthzRegister (s\<lparr>healthzRegistered := True\<rparr>)))"
| "Initialize_range (expected # rest) s =
     (case initializeConnection expected s of
        (Returns None, s1) \<Rightarrow> Initialize_range rest s1
      | (Returns (Some err), s1) \<Rightarrow>
          (Returns (),
           emit (Logrus ErrorLevel (''failed to initialize rabbit connection: '' @ Error err)) s1)
      | (Panics r, s1) \<Rightarrow> (Panics r, s1)
      | (Blocks, s1) \<Rightarrow> (Blocks, s1))"

definition Initialize :: "rabbit \<Rightarrow> unit outcome \<times> rabbit" where
  "Initialize s =
     (if once s then (Returns (), s)
      else Initialize_range (rabbitConnExpected s) (s\<lparr>once := True\<rparr>))"

text \<open>\<open>Health\<close>: a \<open>select\<close> with a \<open>default\<close> branch, so an empty buffer is not waited for;
  a record that is received is removed from the buffer.\<close>

definition Health :: "rabbit \<Rightarrow> error option outcome \<times> rabbit" where
  "Health s =
     (case notifyClose s of
        [] \<Rightarrow> (Returns None, s)
      | err # rest \<Rightarrow>
          (case err of
             Some e \<Rightarrow> (Returns (Some (Errorf (''RabbitMQ error happen : '' @ Error e))),
                         s\<lparr>notifyClose := rest\<rparr>)
           | None \<Rightarrow> (Returns None, s\<lparr>notifyClose := rest\<rparr>)))"

text \<open>The package variables when the process starts, for given settings and given
  answers of the broker; this broker names a queue declared without a name after the
  channel of the declaration.\<close>

definition start :: "settings \<Rightarrow> error option list \<Rightarrow> rabbit" where
  "start cfg rs =
     \<lparr>connRng = Map.empty, connRngLock = False, connRngReaders = 0, once = False,
      rng = Map.empty, rngLock = False, killCancel = False, rabbitConnExpected = [],
      notifyClose = [], slots = (\<lambda>_. \<lparr>chn = 0, lock = False, rtrn = 0, wg = 0, closed = False\<rparr>),
      viper = cfg, healthzRegistered = False, replies = rs,
      serverNamed = (\<lambda>ch. ''amq.gen-'' @ decimal ch), closeListener = (\<lambda>_. False),
      fresh = 0, trace = []\<rparr>"

subsection \<open>Connection handles, publishing and consuming\<close>

record Connection =
  name :: string

definition GetConnection :: "string \<Rightarrow> rabbit \<Rightarrow> (error + Connection) outcome \<times> rabbit" where
  "GetConnection nm s =
     (if connRngLock s then (Blocks, s)
      else (case connRng s nm of
              None \<Rightarrow>
                (Returns (Inl (Errorf (''rabbitmq connection '' @ [CHR 0x27] @ nm @ [CHR 0x27] @
                                       '' not found''))), s)
            | Some _ \<Rightarrow> (Returns (Inr \<lparr>name = nm\<rparr>), s)))"

text \<open>\<open>sync.WaitGroup\<close>: \<open>Add\<close> panics when the counter becomes negative, \<open>Done\<close> is
  \<open>Add(-1)\<close>.\<close>

definition wg_Add :: "nat \<Rightarrow> int \<Rightarrow> rabbit \<Rightarrow> unit outcome \<times> rabbit" where
  "wg_Add cl delta s =
     (let v = wg (slots s cl) + delta;
          s1 = emit (WgAdd cl delta) (s\<lparr>slots := (slots s)(cl := (slots s cl)\<lparr>wg := v\<rparr>)\<rparr>)
      in if v < 0 then (Panics negative_counter, s1) else (Returns (), s1))"

definition wg_Done :: "nat \<Rightarrow> rabbit \<Rightarrow> unit outcome \<times> rabbit" where
  "wg_Done cl s = wg_Add cl (- 1) s"

text \<open>One round of the listener \<open>publishConfirm\<close> of slot \<open>cl\<close>: it takes a record from
  \<open>rtrn\<close>, if there is one, and calls \<open>wg.Done()\<close>.\<close>

definition publishConfirm :: "nat \<Rightarrow> rabbit \<Rightarrow> unit outcome \<times> rabbit" where
  "publishConfirm cl s =
     (if rtrn (slots s cl) = 0 then (Returns (), s)
      else wg_Done cl (s\<lparr>slots := (slots s)(cl := (slots s cl)\<lparr>rtrn := rtrn (slots s cl) - 1\<rparr>)\<rparr>))"

text \<open>The broker's confirmation of a message sent on the channel of slot \<open>cl\<close> arrives in
  the slot's buffer.\<close>

definition confirmation_arrives :: "nat \<Rightarrow> rabbit \<Rightarrow> rabbit" where
  "confirmation_arrives cl s =
     s\<lparr>slots := (slots s)(cl := (slots s cl)\<lparr>rtrn := rtrn (slots s cl) + 1\<rparr>)\<rparr>"

text \<open>\<open>cl.wg.Wait()\<close> as seen by the publisher that has just sent on slot \<open>cl\<close>: the next
  answer of the broker tells whether the confirmation of that message ever arrives
  (\<open>None\<close>) or not (the connection is lost); when it arrives the listener handles it, and
  the wait ends once the counter is zero.\<close>

definition wg_Wait :: "nat \<Rightarrow> rabbit \<Rightarrow> error option outcome \<times> rabbit" where
  "wg_Wait cl s =
     (case request (WgWait cl) s of
        (Some lost, s1) \<Rightarrow> (Blocks, s1)
      | (None, s1) \<Rightarrow>
          (case publishConfirm cl (confirmation_arrives cl s1) of
             (Returns u, s2) \<Rightarrow> if wg (slots s2 cl) = 0 then (Returns None, s2) else (Blocks, s2)
           | (Panics r, s2) \<Rightarrow> (Panics r, s2)
           | (Blocks, s2) \<Rightarrow> (Blocks, s2)))"

text \<open>\<open>Publish\<close> from the queue declaration on, with the transient channel \<open>ch\<close> open.\<close>

definition Publish_declared :: "nat \<Rightarrow> nat \<Rightarrow> string \<Rightarrow> bytes \<Rightarrow> rabbit \<Rightarrow> error option outcome \<times> rabbit" where
  "Publish_declared cl ch queue body s =
     (case request (QueueDeclare ch queue True False False False) s of
        (Some err, s1) \<Rightarrow> (Returns (Some err), s1)
      | (None, s1) \<Rightarrow>
          (case wg_Add cl 1 s1 of
             (Returns u, s2) \<Rightarrow>
               (case request (BasicPublish (chn (slots s2 cl)) [] queue False False 2
                                ''application/json'' body) s2 of
                  (Some err, s3) \<Rightarrow>
                    (case wg_Done cl s3 of
                       (Returns u, s4) \<Rightarrow> (Returns (Some err), s4)
                     | (Panics r, s4) \<Rightarrow> (Panics r, s4)
                     | (Blocks, s4) \<Rightarrow> (Blocks, s4))
                | (None, s3) \<Rightarrow> wg_Wait cl s3)
           | (Panics r, s2) \<Rightarrow> (Panics r, s2)
           | (Blocks, s2) \<Rightarrow> (Blocks, s2)))"

text \<open>\<open>Publish\<close> from the \<open>closed\<close> check on, with the slot's lock held. The read lock on
  \<open>connRng\<close> is released by a plain call, so a panic between the two leaves it held; the
  transient channel is closed by a deferred call.\<close>

definition Publish_locked :: "Connection \<Rightarrow> nat \<Rightarrow> string \<Rightarrow> bytes \<Rightarrow> rabbit \<Rightarrow> error option outcome \<times> rabbit" where
  "Publish_locked c cl queue body s =
     (if closed (slots s cl) then (Returns (Some (Errorf ''channel closed'')), s)
      else if connRngLock s then (Blocks, s)
      else
        (let s1 = s\<lparr>connRngReaders := connRngReaders s + 1\<rparr>
         in case connRng s1 (name c) of
              None \<Rightarrow> (Panics nil_dereference, s1)
            | Some cr \<Rightarrow>
                (case ring_Value cr of
                   None \<Rightarrow> (Panics nil_conversion, s1)
                 | Some conn \<Rightarrow>
                     (case conn_Channel conn (s1\<lparr>connRngReaders := connRngReaders s1 - 1\<rparr>) of
                        (Inl err, s2) \<Rightarrow> (Returns (Some err), s2)
                      | (Inr ch, s2) \<Rightarrow>
                          (case Publish_declared cl ch queue body s2 of
                             (Blocks, s3) \<Rightarrow> (Blocks, s3)
                           | (res, s3) \<Rightarrow> (res, emit (CloseChannel ch) s3))))))"

text \<open>\<open>Publish\<close>. The context argument is never read. The slot is taken from the ring
  under \<open>rngLock\<close>, which is released by a plain call (a panic in between leaves it held);
  the slot's own lock is released by a deferred call, on return and on panic.\<close>

definition Publish :: "Connection \<Rightarrow> string \<Rightarrow> bytes \<Rightarrow> rabbit \<Rightarrow> error option outcome \<times> rabbit" where
  "Publish c queue body s =
     (if rngLock s then (Blocks, s)
      else
        (let s1 = s\<lparr>rngLock := True\<rparr>
         in case rng s1 (name c) of
              None \<Rightarrow> (Panics nil_dereference, s1)
            | Some r \<Rightarrow>
                (case ring_Value r of
                   None \<Rightarrow> (Panics nil_conversion, s1)
                 | Some cl \<Rightarrow>
                     (let s2 = emit (RingAdvance (name c) cl)
                                 (s1\<lparr>rng := (rng s1)(name c \<mapsto> ring_Next r), rngLock := False\<rparr>)
                      in if lock (slots s2 cl) then (Blocks, s2)
                         else
                           (case Publish_locked c cl queue body
                                   (emit (SlotLock cl)
                                      (s2\<lparr>slots := (slots s2)(cl := (slots s2 cl)\<lparr>lock := True\<rparr>)\<rparr>)) of
                              (Blocks, s3) \<Rightarrow> (Blocks, s3)
                            | (res, s3) \<Rightarrow>
                                (res, emit (SlotUnlock cl)
                                        (s3\<lparr>slots := (slots s3)(cl := (slots s3 cl)\<lparr>lock := False\<rparr>)\<rparr>)))))))"

text \<open>What the \<open>select\<close> of the receive loop sees, one item per round: the context is
  done, a delivery (its tag and body) is received, or the delivery channel is closed.\<close>

datatype arrival =
    CtxDone
  | Delivery nat bytes
  | MsgsClosed

text \<open>The receive loop. The handler is a Go closure: its \<open>k\<close>-th call (from 0) on a body
  returns an error or nil, panics, or never returns. The results of \<open>Ack\<close> and \<open>Nack\<close> are
  discarded. When no further arrival is given the loop stays in its \<open>select\<close>.\<close>

fun Consume_loop ::
  "(nat \<Rightarrow> bytes \<Rightarrow> error option outcome) \<Rightarrow> nat \<Rightarrow> arrival list \<Rightarrow> rabbit \<Rightarrow>
     error option outcome \<times> rabbit" where
  "Consume_loop handler k [] s = (Blocks, s)"
| "Consume_loop handler k (CtxDone # rest) s = (Returns None, s)"
| "Consume_loop handler k (MsgsClosed # rest) s = (Returns (Some (Errorf ''channel closed'')), s)"
| "Consume_loop handler k (Delivery tag body # rest) s =
     (case handler k body of
        Returns (Some err) \<Rightarrow>
          Consume_loop handler (k + 1) rest (emit (Nack tag False True) (emit (Handle body) s))
      | Returns None \<Rightarrow>
          Consume_loop handler (k + 1) rest (emit (Ack tag False) (emit (Handle body) s))
      | Panics r \<Rightarrow> (Panics r, emit (Handle body) s)
      | Blocks \<Rightarrow> (Blocks, emit (Handle body) s))"

text \<open>\<open>Consume\<close>. The queue is consumed under the name that the declaration returns
  (\<open>q.Name\<close>). The channel is closed by a deferred call.\<close>

definition Consume ::
  "Connection \<Rightarrow> arrival list \<Rightarrow> string \<Rightarrow> (nat \<Rightarrow> bytes \<Rightarrow> error option outcome) \<Rightarrow> rabbit \<Rightarrow>
     error option outcome \<times> rabbit" where
  "Consume c arrivals queue handler s =
     (if connRngLock s then (Blocks, s)
      else
        (let s1 = s\<lparr>connRngReaders := connRngReaders s + 1\<rparr>
         in case connRng s1 (name c) of
              None \<Rightarrow> (Panics nil_dereference, s1)
            | Some cr \<Rightarrow>
                (case ring_Value cr of
                   None \<Rightarrow> (Panics nil_conversion, s1)
                 | Some conn \<Rightarrow>
                     (case conn_Channel conn (s1\<lparr>connRngReaders := connRngReaders s1 - 1\<rparr>) of
                        (Inl err, s2) \<Rightarrow> (Returns (Some err), s2)
                      | (Inr ch, s2) \<Rightarrow>
                          (case (case ch_QueueDeclare ch queue True False False False s2 of
                                   (Inl err, s3) \<Rightarrow> (Returns (Some err), s3)
                                 | (Inr q, s3) \<Rightarrow>
                                     (case request (BasicConsume ch (Name q) [] False False False False) s3 of
                                        (Some err, s4) \<Rightarrow> (Returns (Some err), s4)
                                      | (None, s4) \<Rightarrow> Consume_loop handler 0 arrivals s4)) of
                             (Blocks, s5) \<Rightarrow> (Blocks, s5)
                           | (res, s5) \<Rightarrow> (res, emit (CloseChannel ch) s5))))))"

section \<open>Concurrent publishers on one slot\<close>

text \<open>
  Where a goroutine that has been routed to the slot stands in \<open>Publish\<close> (the line numbers
  are those of the source of \<open>Connection.Publish\<close>): not in a call; before
  \<open>cl.lock.Lock()\<close> (166); before the \<open>closed\<close> check (169); before the declaration of the
  queue on a transient channel (174-194); before \<open>cl.wg.Add(1)\<close> (196); before the send
  (198); before \<open>cl.wg.Done()\<close> after a failed send (211); in \<open>cl.wg.Wait()\<close> (215);
  returning, with the deferred \<open>cl.lock.Unlock()\<close> still to run; returned.
\<close>

datatype pc =
    Idle
  | AtLock
  | AtClosed
  | AtDeclare
  | AtAdd
  | AtSend
  | AtDone error
  | AtWait
  | AtUnlock "error option outcome"
  | Ended "error option outcome"

text \<open>
  One slot with the goroutines around it: the publishers (numbered), the broker, which
  holds the messages it has accepted on the slot's channel and not yet confirmed, and the
  listener \<open>publishConfirm\<close>. \<open>sent\<close> counts the sends issued so far, \<open>observed\<close> the
  confirmations the listener has taken from \<open>rtrn\<close>.
\<close>

record flight =
  slot :: chnlLock
  pcs :: "nat \<Rightarrow> pc"
  unconfirmed :: nat
  sent :: nat
  observed :: nat

text \<open>
  What the scheduler, the broker and the outcome of a request can choose: publisher \<open>t\<close>
  takes its next step (for the declaration and the send, with the given result), the
  broker confirms a message (ack or nack alike: the record goes into \<open>rtrn\<close>), the listener
  takes a record from \<open>rtrn\<close> and calls \<open>wg.Done()\<close>.
\<close>

datatype event =
    Enter nat
  | Acquire nat
  | Check nat
  | Declared nat "error option outcome"
  | Incr nat
  | Sent nat "error option"
  | Decr nat
  | Waited nat
  | Release nat
  | BrokerConfirms
  | ListenerTakes

definition at :: "nat \<Rightarrow> pc \<Rightarrow> flight \<Rightarrow> flight" where
  "at t p s = s\<lparr>pcs := (pcs s)(t := p)\<rparr>"

text \<open>
  One step; \<open>None\<close> when the step cannot be taken in this state (\<open>Acquire\<close> on a held mutex and
  \<open>Waited\<close> on a non-zero counter have to wait), or when \<open>wg.Done()\<close> would make the counter
  negative, which panics and ends the process. A declaration that never returns is no
  step.
\<close>

fun step :: "event \<Rightarrow> flight \<Rightarrow> flight option" where
  "step (Enter t) s =
     (case pcs s t of
        Idle \<Rightarrow> Some (at t AtLock s)
      | Ended r \<Rightarrow> Some (at t AtLock s)
      | _ \<Rightarrow> None)"
| "step (Acquire t) s =
     (if pcs s t = AtLock \<and> \<not> lock (slot s)
      then Some (at t AtClosed (s\<lparr>slot := (slot s)\<lparr>lock := True\<rparr>\<rparr>)) else None)"
| "step (Check t) s =
     (if pcs s t = AtClosed
      then Some (at t (if closed (slot s)
                       then AtUnlock (Returns (Some (Errorf ''channel closed'')))
                       else AtDeclare) s)
      else None)"
| "step (Declared t r) s =
     (if pcs s t = AtDeclare
      then (case r of
              Returns None \<Rightarrow> Some (at t AtAdd s)
            | Returns (Some err) \<Rightarrow> Some (at t (AtUnlock (Returns (Some err))) s)
            | Panics v \<Rightarrow> Some (at t (AtUnlock (Panics v)) s)
            | Blocks \<Rightarrow> None)
      else None)"
| "step (Incr t) s =
     (if pcs s t = AtAdd
      then Some (at t AtSend (s\<lparr>slot := (slot s)\<lparr>wg := wg (slot s) + 1\<rparr>\<rparr>)) else None)"
| "step (Sent t r) s =
     (if pcs s t = AtSend
      then (case r of
              None \<Rightarrow> Some (at t AtWait (s\<lparr>unconfirmed := unconfirmed s + 1, sent := sent s + 1\<rparr>))
            | Some err \<Rightarrow> Some (at t (AtDone err) s))
      else None)"
| "step (Decr t) s =
     (case pcs s t of
        AtDone err \<Rightarrow>
          (if wg (slot s) - 1 < 0 then None
           else Some (at t (AtUnlock (Returns (Some err)))
                        (s\<lparr>slot := (slot s)\<lparr>wg := wg (slot s) - 1\<rparr>\<rparr>)))
      | _ \<Rightarrow> None)"
| "step (Waited t) s =
     (if pcs s t = AtWait \<and> wg (slot s) = 0
      then Some (at t (AtUnlock (Returns None)) s) else None)"
| "step (Release t) s =
     (case pcs s t of
        AtUnlock r \<Rightarrow> Some (at t (Ended r) (s\<lparr>slot := (slot s)\<lparr>lock := False\<rparr>\<rparr>))
      | _ \<Rightarrow> None)"
| "step BrokerConfirms s =
     (if 0 < unconfirmed s
      then Some (s\<lparr>slot := (slot s)\<lparr>rtrn := rtrn (slot s) + 1\<rparr>,
                   unconfirmed := unconfirmed s - 1\<rparr>)
      else None)"
| "step ListenerTakes s =
     (if 0 < rtrn (slot s)
      then (if wg (slot s) - 1 < 0 then None
            else Some (s\<lparr>slot := (slot s)\<lparr>rtrn := rtrn (slot s) - 1, wg := wg (slot s) - 1\<rparr>,
                         observed := observed s + 1\<rparr>))
      else None)"

fun run :: "event list \<Rightarrow> flight \<Rightarrow> flight option" where
  "run [] s = Some s"
| "run (e # es) s = (case step e s of None \<Rightarrow> None | Some s1 \<Rightarrow> run es s1)"

text \<open>The slot as \<open>initializeConnection\<close> creates it, with no publisher in a call.\<close>

definition fresh_slot :: "nat \<Rightarrow> flight" where
  "fresh_slot pchn =
     \<lparr>slot = \<lparr>chn = pchn, lock = False, rtrn = 0, wg = 0, closed = False\<rparr>,
      pcs = (\<lambda>t. Idle), unconfirmed = 0, sent = 0, observed = 0\<rparr>"

section \<open>Notions used to state the properties\<close>

subsection \<open>Runs of the retrier\<close>

text \<open>An attempt failed when the loop got a non-nil \<open>err\<close> from it (returned, or recovered
  from a panic); the loop goes on after a failed attempt that ended before the deadline.\<close>

definition failed :: "fn_call \<Rightarrow> bool" where
  "failed c = (case guarded_call (result c) of Returns (Some e) \<Rightarrow> True | _ \<Rightarrow> False)"

definition continues :: "(nat \<Rightarrow> fn_call) \<Rightarrow> duration \<Rightarrow> nat \<Rightarrow> duration \<Rightarrow> bool" where
  "continues fn maxDuration attempt0 since =
     (failed (fn (attempt0 + 1)) \<and> since + int (took (fn (attempt0 + 1))) < maxDuration)"

text \<open>The time spent inside the first \<open>n\<close> calls of \<open>fn\<close>, and the time the loop sleeps
  before the \<open>n\<close>-th call.\<close>

definition time_in_fn :: "(nat \<Rightarrow> fn_call) \<Rightarrow> nat \<Rightarrow> duration" where
  "time_in_fn fn n = (\<Sum>k\<leftarrow>[1..<Suc n]. int (took (fn k)))"

definition time_asleep :: "nat \<Rightarrow> duration" where
  "time_asleep n = (\<Sum>k\<leftarrow>[1..<n]. backoff_of k)"

text \<open>Functions to retry: one whose every call returns an error at once, one whose
  every call panics after half a second, and two whose every call returns an error after
  three seconds, and after nine tenths of a second.\<close>

definition always_down :: "nat \<Rightarrow> fn_call" where
  "always_down k = \<lparr>result = Returns (Some (Errorf ''connection refused'')), took = 0\<rparr>"

definition always_panics :: "nat \<Rightarrow> fn_call" where
  "always_panics k = \<lparr>result = Panics (PString ''boom''), took = 500000000\<rparr>"

definition always_slow :: "nat \<Rightarrow> fn_call" where
  "always_slow k = \<lparr>result = Returns (Some (Errorf ''connection refused'')), took = 3000000000\<rparr>"

definition always_sluggish :: "nat \<Rightarrow> fn_call" where
  "always_sluggish k = \<lparr>result = Returns (Some (Errorf ''connection refused'')), took = 900000000\<rparr>"

subsection \<open>Reading a trace\<close>

text \<open>The number of \<open>Dial\<close> requests in a trace, and the slots that the \<open>Publish\<close> calls on
  broker \<open>nm\<close> took from the ring, in order.\<close>

fun is_Dial :: "action \<Rightarrow> bool" where
  "is_Dial (Dial url) = True"
| "is_Dial a = False"

definition dials :: "action list \<Rightarrow> nat" where
  "dials tr = length (filter is_Dial tr)"

fun taken :: "string \<Rightarrow> action \<Rightarrow> nat list" where
  "taken nm (RingAdvance n cl) = (if n = nm then [cl] else [])"
| "taken nm a = []"

definition acquired :: "string \<Rightarrow> action list \<Rightarrow> nat list" where
  "acquired nm tr = concat (map (taken nm) tr)"

text \<open>The number of connections and of publish slots that \<open>initializeConnection\<close> sets up
  under given settings.\<close>

definition connection_count :: "settings \<Rightarrow> nat" where
  "connection_count cfg =
     nat (if rabbit_connection_num cfg < 1 then 1 else rabbit_connection_num cfg)"

definition pool_size :: "settings \<Rightarrow> nat" where
  "pool_size cfg = nat (if rabbit_publish_num cfg < 1 then 1 else rabbit_publish_num cfg)"

subsection \<open>The requests of an initialisation\<close>

text \<open>The length of the confirmation buffers that \<open>initializeConnection\<close> makes under
  given settings.\<close>

definition confirm_len :: "settings \<Rightarrow> int" where
  "confirm_len cfg = (if rabbit_confirm_len cfg < 1 then 100 else rabbit_confirm_len cfg)"

text \<open>
  What one \<open>initializeConnection\<close> asks of the broker library when every request is
  granted, for broker \<open>e\<close> and with \<open>f\<close> the next unused identity: one dial per configured
  connection (the connections get the identities \<open>f\<close>, ..., \<open>f + c - 1\<close>); a channel on the
  second connection of the ring (the first when there is only one), on which the exchange
  is declared durable and which is then closed; and for the \<open>j\<close>-th publish slot a channel
  on the next connection round the ring, put into confirm mode and subscribed with a fresh
  confirmation buffer, and the start of the slot's listener. \<open>slots_built\<close> is the last part
  for a ring of connections \<open>cs\<close>.
\<close>

definition slots_built :: "nat list \<Rightarrow> nat \<Rightarrow> int \<Rightarrow> nat \<Rightarrow> action list" where
  "slots_built cs f cl j =
     concat (map (\<lambda>i. [OpenChannel (hd (rotate (Suc i) cs)), Confirm (f + 2 * i) False,
                        NotifyPublish (f + 2 * i) (f + 2 * i + 1) cl,
                        GoPublishConfirm (f + 2 * i + 1)]) [0..<j])"

definition broker_startup :: "settings \<Rightarrow> nat \<Rightarrow> rabbitExpected \<Rightarrow> action list" where
  "broker_startup cfg f e =
     (let c = connection_count cfg
      in replicate c (Dial (Sprintf_amqp (user e) (password e) (host e) (port e) (vHost e)))
         @ [OpenChannel (f + 1 mod c),
            ExchangeDeclare (f + c) (exchange_name cfg) (exchange_type cfg) True False False False,
            CloseChannel (f + c)]
         @ concat (map (\<lambda>j. [OpenChannel (f + (j + 2) mod c),
                              Confirm (f + c + 1 + 2 * j) False,
                              NotifyPublish (f + c + 1 + 2 * j) (f + c + 2 + 2 * j) (confirm_len cfg),
                              GoPublishConfirm (f + c + 2 + 2 * j)])
                     [0..<pool_size cfg]))"


subsection \<open>Frames\<close>

text \<open>The package variables that no request to the broker touches.\<close>

definition same_package :: "rabbit \<Rightarrow> rabbit \<Rightarrow> bool" where
  "same_package s s' =
     (connRngLock s' = connRngLock s \<and> connRngReaders s' = connRngReaders s \<and> once s' = once s
      \<and> rngLock s' = rngLock s \<and> killCancel s' = killCancel s
      \<and> rabbitConnExpected s' = rabbitConnExpected s \<and> notifyClose s' = notifyClose s
      \<and> viper s' = viper s \<and> healthzRegistered s' = healthzRegistered s
      \<and> closeListener s' = closeListener s)"

text \<open>No package lock is held.\<close>

definition unlocked :: "rabbit \<Rightarrow> bool" where
  "unlocked s = (\<not> connRngLock s \<and> connRngReaders s = 0 \<and> \<not> rngLock s)"

subsection \<open>A concrete configuration\<close>

text \<open>One broker registered under the name "main", two connections, three publish
  slots; the broker's answers are a parameter.\<close>

definition settings0 :: settings where
  "settings0 = \<lparr>rabbit_connection_num = 2, rabbit_publish_num = 3, rabbit_confirm_len = 0,
     exchange_name = ''events'', exchange_type = ''topic''\<rparr>"

definition main_registered :: "error option list \<Rightarrow> rabbit" where
  "main_registered rs =
     RegisterRabbitMq ''main'' ''localhost'' 5672 ''guest'' ''secret'' ''vh'' (start settings0 rs)"

text \<open>The same with a second broker registered after it under the name "audit".\<close>

definition both_registered :: "error option list \<Rightarrow> rabbit" where
  "both_registered rs =
     RegisterRabbitMq ''audit'' ''backup'' 5673 ''guest'' ''secret'' ''vh'' (main_registered rs)"

definition main_expected :: rabbitExpected where
  "main_expected = \<lparr>containerName = ''main'', host = ''localhost'', port = 5672,
     user = ''guest'', password = ''secret'', vHost = ''vh''\<rparr>"

subsection \<open>Publishing and consuming\<close>

text \<open>A step that leaves the publish ring, its lock and the slots taken so far as they
  are, and only adds to the trace.\<close>

definition ring_frame :: "string \<Rightarrow> rabbit \<Rightarrow> rabbit \<Rightarrow> bool" where
  "ring_frame k s s' =
     (rng s' = rng s \<and> rngLock s' = rngLock s \<and> acquired k (trace s') = acquired k (trace s)
      \<and> (\<exists>rest. trace s' = trace s @ rest))"

text \<open>\<open>Publish\<close> calls on broker \<open>nm\<close>, begun one after the other, each with its queue and
  body. The outcome of a call (nil, an error, a panic, a caller left blocked on a lock or on
  the confirmation) is dropped here; the package state it leaves is what the next call finds.\<close>

fun Publish_seq :: "string \<Rightarrow> (string \<times> bytes) list \<Rightarrow> rabbit \<Rightarrow> rabbit" where
  "Publish_seq nm [] s = s"
| "Publish_seq nm ((queue, body) # calls) s =
     Publish_seq nm calls (snd (Publish \<lparr>name = nm\<rparr> queue body s))"

text \<open>Kinds of action, the place of the first action of a kind in a list of actions, and
  the actions performed between two states.\<close>

fun is_QueueDeclare :: "action \<Rightarrow> bool" where
  "is_QueueDeclare (QueueDeclare ch queue durable autoDelete exclusive noWait) = True"
| "is_QueueDeclare a = False"

fun is_RingAdvance :: "action \<Rightarrow> bool" where
  "is_RingAdvance (RingAdvance nm cl) = True"
| "is_RingAdvance a = False"

fun is_SlotLock :: "action \<Rightarrow> bool" where
  "is_SlotLock (SlotLock cl) = True"
| "is_SlotLock a = False"

definition position :: "(action \<Rightarrow> bool) \<Rightarrow> action list \<Rightarrow> nat" where
  "position P tr = length (takeWhile (\<lambda>a. \<not> P a) tr)"

definition performed :: "rabbit \<Rightarrow> rabbit \<Rightarrow> action list" where
  "performed s s' = drop (length (trace s)) (trace s')"

text \<open>The configuration "main" after \<open>Initialize\<close>, when the broker grants the ten requests
  of the initialisation and then answers \<open>rs\<close>.\<close>

definition main_ready :: "error option list \<Rightarrow> rabbit" where
  "main_ready rs =
     snd (Initialize (main_registered
            ([None, None, None, None, None, None, None, None, None, None] @ rs)))"

text \<open>One connection and one publish slot: after \<open>Initialize\<close> (five requests) every
  \<open>Publish\<close> uses the same slot.\<close>

definition settings1 :: settings where
  "settings1 = \<lparr>rabbit_connection_num = 1, rabbit_publish_num = 1, rabbit_confirm_len = 0,
     exchange_name = ''events'', exchange_type = ''topic''\<rparr>"

definition single_ready :: "error option list \<Rightarrow> rabbit" where
  "single_ready rs =
     snd (Initialize (RegisterRabbitMq ''main'' ''localhost'' 5672 ''guest'' ''secret'' ''vh''
            (start settings1 ([None, None, None, None, None] @ rs))))"

text \<open>The deliveries that the receive loop gets before the context is done or the delivery
  channel is closed; how the loop ends, which the arrivals alone decide; and what is done
  with the \<open>k\<close>-th delivery.\<close>

fun received :: "arrival list \<Rightarrow> (nat \<times> bytes) list" where
  "received [] = []"
| "received (Delivery tag body # rest) = (tag, body) # received rest"
| "received (a # rest) = []"

fun ending :: "arrival list \<Rightarrow> error option outcome" where
  "ending [] = Blocks"
| "ending (CtxDone # rest) = Returns None"
| "ending (MsgsClosed # rest) = Returns (Some (Errorf ''channel closed''))"
| "ending (Delivery tag body # rest) = ending rest"

definition settle ::
  "(nat \<Rightarrow> bytes \<Rightarrow> error option outcome) \<Rightarrow> nat \<times> nat \<times> bytes \<Rightarrow> action list" where
  "settle handler d =
     (case d of (k, tag, body) \<Rightarrow>
        [Handle body,
         if handler k body = Returns None then Ack tag False else Nack tag False True])"

text \<open>A handler that fails on its first call only.\<close>

definition flaky :: "nat \<Rightarrow> bytes \<Rightarrow> error option outcome" where
  "flaky k body = (if k = 0 then Returns (Some (Errorf ''not now'')) else Returns None)"

subsection \<open>Publishers on one slot\<close>

text \<open>A publisher holds the slot's lock from its \<open>Acquire\<close> to its deferred \<open>Release\<close>; its
  publish is under way from the increment of the counter to the end of the wait.\<close>

fun holds :: "pc \<Rightarrow> bool" where
  "holds Idle = False"
| "holds AtLock = False"
| "holds (Ended r) = False"
| "holds p = True"

fun under_way :: "pc \<Rightarrow> bool" where
  "under_way AtAdd = True"
| "under_way AtSend = True"
| "under_way (AtDone err) = True"
| "under_way AtWait = True"
| "under_way p = False"

fun counted :: "pc \<Rightarrow> bool" where
  "counted AtSend = True"
| "counted (AtDone err) = True"
| "counted p = False"

text \<open>The confirmations still owed to the slot (with the broker or in the buffer), and
  the bookkeeping that every step keeps: the lock is held exactly when a publisher is
  between \<open>Acquire\<close> and \<open>Release\<close>, there is at most one such publisher, and the counter is
  the number of confirmations owed plus one while that publisher is between \<open>Incr\<close> and the
  end of its send.\<close>

definition outstanding :: "flight \<Rightarrow> nat" where
  "outstanding s = unconfirmed s + rtrn (slot s)"

definition slot_inv :: "flight \<Rightarrow> bool" where
  "slot_inv s =
     ((lock (slot s) \<longleftrightarrow> (\<exists>t. holds (pcs s t)))
      \<and> (\<forall>t t'. holds (pcs s t) \<and> holds (pcs s t') \<longrightarrow> t = t')
      \<and> sent s = observed s + outstanding s
      \<and> wg (slot s) = int (outstanding s) + (if \<exists>t. counted (pcs s t) then 1 else 0)
      \<and> (outstanding s = 0 \<or> outstanding s = 1 \<and> (\<exists>t. pcs s t = AtWait)))"

text \<open>Two publishers routed to the same slot: the first has sent and waits, the second
  has just been routed.\<close>

definition two_publishers :: "event list" where
  "two_publishers =
     [Enter 0, Enter 1, Acquire 0, Check 0, Declared 0 (Returns None), Incr 0, Sent 0 None]"

section \<open>The retrier: proofs\<close>

declare Try_loop.simps [simp del]

lemma Try_loop_stop:
  "\<not> continues fn m a since \<Longrightarrow>
   Try_loop fn m a since evs =
     \<lparr>ret = guarded_call (result (fn (a + 1))), attempts = a + 1,
      elapsed = since + int (took (fn (a + 1))), events = evs @ [Invoke (a + 1)]\<rparr>"
  by (subst Try_loop.simps)
     (auto simp: continues_def failed_def Let_def split: outcome.splits option.splits)

lemma Try_loop_cont:
  "continues fn m a since \<Longrightarrow>
   Try_loop fn m a since evs =
     Try_loop fn m (a + 1) (since + int (took (fn (a + 1))) + backoff_of (a + 1))
       (evs @ [Invoke (a + 1), Sleep (backoff_of (a + 1))])"
  by (subst Try_loop.simps)
     (auto simp: continues_def failed_def Let_def split: outcome.splits option.splits)

lemma Try_loop_induct [case_names stop cont]:
  assumes stop: "\<And>a since evs. \<not> continues fn m a since \<Longrightarrow> P a since evs"
    and cont: "\<And>a since evs. continues fn m a since \<Longrightarrow>
        P (a + 1) (since + int (took (fn (a + 1))) + backoff_of (a + 1))
          (evs @ [Invoke (a + 1), Sleep (backoff_of (a + 1))]) \<Longrightarrow> P a since evs"
  shows "P a since evs"
proof (induction "nat (m - since)" arbitrary: a since evs rule: less_induct)
  case less
  show ?case
  proof (cases "continues fn m a since")
    case False
    then show ?thesis by (rule stop)
  next
    case True
    have "0 < backoff_of (a + 1)"
      by (simp add: backoff_of_def Second_def Let_def)
    with True have "nat (m - (since + int (took (fn (a + 1))) + backoff_of (a + 1)))
        < nat (m - since)"
      by (simp add: continues_def)
    then show ?thesis using less True cont by blast
  qed
qed

lemma attempts_Try_loop: "a < attempts (Try_loop fn m a since evs)"
  by (induction a since evs rule: Try_loop_induct [of fn m])
     (simp_all add: Try_loop_stop Try_loop_cont)

lemma ret_Try_loop:
  "ret (Try_loop fn m a since evs) =
     guarded_call (result (fn (attempts (Try_loop fn m a since evs))))"
  by (induction a since evs rule: Try_loop_induct [of fn m])
     (simp_all add: Try_loop_stop Try_loop_cont)

lemma earlier_Try_loop:
  "a < k \<Longrightarrow> k < attempts (Try_loop fn m a since evs) \<Longrightarrow> failed (fn k)"
proof (induction a since evs rule: Try_loop_induct [of fn m])
  case (stop a since evs)
  then show ?case by (simp add: Try_loop_stop)
next
  case (cont a since evs)
  show ?case
  proof (cases "k = a + 1")
    case True
    with cont(1) show ?thesis by (simp add: continues_def)
  next
    case False
    with cont show ?thesis by (simp add: Try_loop_cont)
  qed
qed

lemma events_Try_loop:
  "events (Try_loop fn m a since evs) =
     evs @ concat (map (\<lambda>k. [Invoke k, Sleep (backoff_of k)])
                    [Suc a..<attempts (Try_loop fn m a since evs)])
         @ [Invoke (attempts (Try_loop fn m a since evs))]"
proof (induction a since evs rule: Try_loop_induct [of fn m])
  case (stop a since evs)
  then show ?case by (simp add: Try_loop_stop)
next
  case (cont a since evs)
  have "Suc a < attempts (Try_loop fn m (a + 1) (since + int (took (fn (a + 1))) + backoff_of (a + 1))
       (evs @ [Invoke (a + 1), Sleep (backoff_of (a + 1))]))"
    using attempts_Try_loop [of "a + 1"] by simp
  then show ?case using cont by (simp add: Try_loop_cont upt_conv_Cons)
qed

lemma elapsed_Try_loop:
  "elapsed (Try_loop fn m a since evs) =
     since + (\<Sum>k\<leftarrow>[Suc a..<Suc (attempts (Try_loop fn m a since evs))]. int (took (fn k)))
           + (\<Sum>k\<leftarrow>[Suc a..<attempts (Try_loop fn m a since evs)]. backoff_of k)"
proof (induction a since evs rule: Try_loop_induct [of fn m])
  case (stop a since evs)
  then show ?case by (simp add: Try_loop_stop)
next
  case (cont a since evs)
  have "Suc a < attempts (Try_loop fn m (a + 1) (since + int (took (fn (a + 1))) + backoff_of (a + 1))
       (evs @ [Invoke (a + 1), Sleep (backoff_of (a + 1))]))"
    using attempts_Try_loop [of "a + 1"] by simp
  then show ?case using cont by (simp add: Try_loop_cont upt_conv_Cons)
qed

lemma deadline_Try_loop:
  "ret (Try_loop fn m a since evs) = Returns (Some e) \<Longrightarrow>
   m \<le> elapsed (Try_loop fn m a since evs)"
proof (induction a since evs rule: Try_loop_induct [of fn m])
  case (stop a since evs)
  then show ?case
    by (auto simp add: Try_loop_stop continues_def failed_def)
next
  case (cont a since evs)
  then show ?case by (simp add: Try_loop_cont)
qed

lemma before_deadline_Try_loop:
  "a < k \<Longrightarrow> k < attempts (Try_loop fn m a since evs) \<Longrightarrow>
   since + (\<Sum>i\<leftarrow>[Suc a..<Suc k]. int (took (fn i))) + (\<Sum>i\<leftarrow>[Suc a..<k]. backoff_of i) < m"
proof (induction a since evs rule: Try_loop_induct [of fn m])
  case (stop a since evs)
  then show ?case by (simp add: Try_loop_stop)
next
  case (cont a since evs)
  show ?case
  proof (cases "k = a + 1")
    case True
    with cont(1) show ?thesis by (simp add: continues_def)
  next
    case False
    with cont(3) have "Suc a < k" by simp
    with cont show ?thesis by (simp add: Try_loop_cont upt_conv_Cons)
  qed
qed

lemma guarded_call_cases:
  "guarded_call c = Blocks \<or> (\<exists>e. guarded_call c = Returns e)"
  by (cases c) (auto simp: guarded_call_def recover_def)

lemma guarded_call_Panics [simp]:
  "guarded_call (Panics v) = Returns (Some (recoverToError v))"
  by (simp add: guarded_call_def recover_def)

lemma guarded_call_Returns [simp]: "guarded_call (Returns e) = Returns e"
  by (simp add: guarded_call_def recover_def)

lemma guarded_call_Blocks [simp]: "guarded_call Blocks = Blocks"
  by (simp add: guarded_call_def)

lemma time_asleep_small:
  "time_asleep (Suc 0) = 0" "time_asleep 2 = Second" "time_asleep 3 = 3 * Second"
  by (simp_all add: time_asleep_def backoff_of_def Second_def eval_nat_numeral)

lemma time_in_fn_nonneg: "0 \<le> time_in_fn fn k"
  unfolding time_in_fn_def by (rule sum_list_nonneg) auto

lemma Try_run_second_attempt:
  assumes "failed (fn 1)" and "int (took (fn 1)) < m"
  shows "2 \<le> attempts (Try_run fn m)"
proof -
  have "continues fn m 0 0" using assms by (simp add: continues_def)
  then have "attempts (Try_run fn m)
      = attempts (Try_loop fn m (0 + 1) (0 + int (took (fn (0 + 1))) + backoff_of (0 + 1))
           ([] @ [Invoke (0 + 1), Sleep (backoff_of (0 + 1))]))"
    unfolding Try_run_def by (simp only: Try_loop_cont)
  moreover have "0 + 1 < attempts (Try_loop fn m (0 + 1) (0 + int (took (fn (0 + 1))) + backoff_of (0 + 1))
           ([] @ [Invoke (0 + 1), Sleep (backoff_of (0 + 1))]))"
    by (rule attempts_Try_loop)
  ultimately show ?thesis by simp
qed

lemma Try_run_three_seconds:
  assumes allf: "\<And>k. failed (fn k)"
  shows "attempts (Try_run fn (3 * Second)) \<le> 3"
    and "time_asleep (attempts (Try_run fn (3 * Second))) \<le> 3 * Second"
proof -
  let ?n = "attempts (Try_run fn (3 * Second))"
  have n1: "0 < ?n"
    unfolding Try_run_def by (rule attempts_Try_loop)
  show b: "?n \<le> 3"
  proof (rule ccontr)
    assume "\<not> ?n \<le> 3"
    then have "3 < attempts (Try_loop fn (3 * Second) 0 0 [])" by (simp add: Try_run_def)
    then have "0 + (\<Sum>i\<leftarrow>[Suc 0..<Suc 3]. int (took (fn i))) + (\<Sum>i\<leftarrow>[Suc 0..<3]. backoff_of i)
          < 3 * Second"
      by (intro before_deadline_Try_loop) simp_all
    then have "time_in_fn fn 3 + time_asleep 3 < 3 * Second"
      by (simp add: time_in_fn_def time_asleep_def)
    then show False using time_in_fn_nonneg [of fn 3] by (simp add: time_asleep_small)
  qed
  from n1 b have "?n = 1 \<or> ?n = 2 \<or> ?n = 3" by arith
  then show "time_asleep ?n \<le> 3 * Second"
    by (elim disjE) (simp_all add: time_asleep_small Second_def)
qed

lemma backoff_of_lower: "2 \<le> k \<Longrightarrow> 2 * Second \<le> backoff_of k"
  by (simp add: backoff_of_def Second_def Let_def)

lemma time_asleep_Suc: "1 \<le> k \<Longrightarrow> time_asleep (Suc k) = time_asleep k + backoff_of k"
  by (simp add: time_asleep_def)

lemma time_asleep_lower: "2 \<le> k \<Longrightarrow> (2 * int k - 3) * Second \<le> time_asleep k"
proof (induction k rule: nat_induct_at_least)
  case base
  show ?case by (simp add: time_asleep_small)
next
  case (Suc k)
  have "time_asleep (Suc k) = time_asleep k + backoff_of k"
    using Suc.hyps by (simp add: time_asleep_Suc)
  with Suc.IH backoff_of_lower [OF Suc.hyps] show ?case
    by (simp add: algebra_simps)
qed

text \<open>
  The model computes with unbounded integers where the code has \<open>int\<close> and \<open>int64\<close>. Nothing
  is lost: for every \<open>maxDuration\<close> of type \<open>time.Duration\<close> (below \<open>2^63\<close> nanoseconds) the
  product \<open>time.Duration(attempt) * time.Second\<close> of every attempt that is followed by a
  sleep stays below \<open>2^63\<close>.
\<close>

lemma backoff_fits_int64:
  assumes "k < attempts (Try_run fn maxDuration)" and "maxDuration < 2 ^ 63"
  shows "int k * Second < 2 ^ 63"
proof (cases "2 \<le> k")
  case False
  then have "k = 0 \<or> k = 1" by arith
  then show ?thesis by (auto simp: Second_def)
next
  case True
  then have "0 < k" by simp
  from before_deadline_Try_loop [OF this, of fn maxDuration 0 "[]"] assms(1)
  have "time_in_fn fn k + time_asleep k < maxDuration"
    by (simp add: Try_run_def time_in_fn_def time_asleep_def)
  with time_in_fn_nonneg [of fn k] time_asleep_lower [OF True] assms(2)
  show ?thesis by (simp add: Second_def)
qed

lemma backoff_of_min: "backoff_of k = min (int k * Second) (30 * Second)"
  by (simp add: backoff_of_def Let_def min_def)

lemma time_asleep_min: "time_asleep n = (\<Sum>i\<leftarrow>[1..<n]. min (int i * Second) (30 * Second))"
  by (simp add: time_asleep_def backoff_of_min)

lemma Try_run_always_down:
  "Try_run always_down (3 * Second) =
      \<lparr>ret = Returns (Some (Errorf ''connection refused'')), attempts = 3,
       elapsed = 3000000000,
       events = [Invoke 1, Sleep 1000000000, Invoke 2, Sleep 2000000000, Invoke 3]\<rparr>"
  by (simp add: Try_run_def Try_loop.simps always_down_def Second_def backoff_of_def
      numeral_2_eq_2 numeral_3_eq_3)

lemma Try_run_capped:
  "attempts (Try_run always_down (466 * Second)) = 32"
  "elapsed (Try_run always_down (466 * Second)) = 495000000000"
  "drop 60 (events (Try_run always_down (466 * Second)))
     = [Invoke 31, Sleep 30000000000, Invoke 32]"
  by (simp_all add: Try_run_def Try_loop.simps always_down_def Second_def backoff_of_def)

text \<open>
  Claim C7, as the code has it. A run of \<open>Try fn maxDuration\<close> makes \<open>n \<ge> 1\<close> calls of
  \<open>fn\<close>. Its result is that of the last call alone: nil as soon as a call succeeds (every
  earlier call failed, and no sleep follows the successful one), otherwise the error of the
  last call. After the \<open>k\<close>-th failed call that ends before the deadline it sleeps
  \<open>min (k \<times> 1s, 30s)\<close> and calls again; it returns an error only once the time since the
  start, read at the end of a failed call, is at least \<open>maxDuration\<close>. For a function that
  always fails and \<open>maxDuration = 3s\<close>: an error is returned after at most three calls and
  at most 3s of sleep, hence no later than 3s plus the time spent inside \<open>fn\<close>; there is a
  second call exactly when the first one ends in less than 3s, and a third exactly when the
  first two take less than 2s together.
\<close>

theorem Try_retry_contract:
  fixes fn :: "nat \<Rightarrow> fn_call" and maxDuration :: duration
  shows
    "(let r = Try_run fn maxDuration; n = attempts r;
          pause = (\<lambda>k. min (int k * Second) (30 * Second));
          asleep = (\<lambda>k. \<Sum>i\<leftarrow>[1..<k]. pause i)
      in 1 \<le> n
       \<and> ret r = guarded_call (result (fn n))
       \<and> (\<forall>k. 1 \<le> k \<and> k < n \<longrightarrow>
              failed (fn k) \<and> time_in_fn fn k + asleep k < maxDuration)
       \<and> events r = concat (map (\<lambda>k. [Invoke k, Sleep (pause k)]) [1..<n]) @ [Invoke n]
       \<and> elapsed r = time_in_fn fn n + asleep n
       \<and> (\<forall>e. ret r = Returns (Some e) \<longrightarrow> maxDuration \<le> elapsed r)
       \<and> ((\<forall>k. failed (fn k)) \<and> maxDuration = 3 * Second \<longrightarrow>
              (\<exists>e. ret r = Returns (Some e)) \<and> n \<le> 3
              \<and> asleep n \<le> 3 * Second
              \<and> elapsed r \<le> 3 * Second + time_in_fn fn n
              \<and> (2 \<le> n \<longleftrightarrow> int (took (fn 1)) < 3 * Second)
              \<and> (n = 3 \<longleftrightarrow> int (took (fn 1)) + int (took (fn 2)) < 2 * Second)))"
proof -
  define r where "r = Try_run fn maxDuration"
  define n where "n = attempts r"
  have r: "r = Try_loop fn maxDuration 0 0 []" by (simp add: r_def Try_run_def)
  have n1: "1 \<le> n" using attempts_Try_loop [of 0 fn maxDuration 0 "[]"] by (simp add: n_def r)
  have rt: "ret r = guarded_call (result (fn n))"
    unfolding n_def r by (rule ret_Try_loop)
  have early: "failed (fn k) \<and> time_in_fn fn k + time_asleep k < maxDuration"
    if "1 \<le> k" "k < n" for k
    using that earlier_Try_loop [of 0 k fn maxDuration 0 "[]"]
      before_deadline_Try_loop [of 0 k fn maxDuration 0 "[]"]
    by (simp add: n_def r time_in_fn_def time_asleep_def)
  have ev: "events r = concat (map (\<lambda>k. [Invoke k, Sleep (backoff_of k)]) [1..<n]) @ [Invoke n]"
    unfolding n_def r using events_Try_loop [of fn maxDuration 0 0 "[]"] by simp
  have el: "elapsed r = time_in_fn fn n + time_asleep n"
    unfolding n_def r time_in_fn_def time_asleep_def
    using elapsed_Try_loop [of fn maxDuration 0 0 "[]"] by simp
  have dl: "maxDuration \<le> elapsed r" if "ret r = Returns (Some e)" for e
    using that deadline_Try_loop [of fn maxDuration 0 0 "[]" e] by (simp add: r)
  have three: "(\<exists>e. ret r = Returns (Some e)) \<and> n \<le> 3
              \<and> time_asleep n \<le> 3 * Second
              \<and> elapsed r \<le> 3 * Second + time_in_fn fn n
              \<and> (2 \<le> n \<longleftrightarrow> int (took (fn 1)) < 3 * Second)
              \<and> (n = 3 \<longleftrightarrow> int (took (fn 1)) + int (took (fn 2)) < 2 * Second)"
    if allf: "\<forall>k. failed (fn k)" and m: "maxDuration = 3 * Second"
  proof -
    have "failed (fn n)" using allf by simp
    then obtain e where e: "ret r = Returns (Some e)"
      by (auto simp: rt failed_def split: outcome.splits option.splits)
    have b: "n \<le> 3" and b': "time_asleep n \<le> 3 * Second"
      using Try_run_three_seconds [of fn] allf by (simp_all add: n_def r_def m)
    have c: "elapsed r \<le> 3 * Second + time_in_fn fn n" using el b' by simp
    have late: "3 * Second \<le> time_in_fn fn n + time_asleep n"
      using dl [OF e] by (simp add: el m)
    have t1: "time_in_fn fn (Suc 0) = int (took (fn (Suc 0)))"
      and t2: "time_in_fn fn 2 = int (took (fn (Suc 0))) + int (took (fn 2))"
      by (simp_all add: time_in_fn_def numeral_2_eq_2)
    have d: "2 \<le> n \<longleftrightarrow> int (took (fn 1)) < 3 * Second"
    proof
      assume "2 \<le> n"
      then have "time_in_fn fn 1 + time_asleep 1 < maxDuration"
        using early [of 1] by simp
      then show "int (took (fn 1)) < 3 * Second"
        by (simp add: t1 m time_asleep_small)
    next
      assume "int (took (fn 1)) < 3 * Second"
      then show "2 \<le> n"
        using Try_run_second_attempt [of fn maxDuration] allf by (simp add: n_def r_def m)
    qed
    have f: "n = 3 \<longleftrightarrow> int (took (fn 1)) + int (took (fn 2)) < 2 * Second"
    proof
      assume "n = 3"
      then have "time_in_fn fn 2 + time_asleep 2 < maxDuration"
        using early [of 2] by simp
      then show "int (took (fn 1)) + int (took (fn 2)) < 2 * Second"
        by (simp add: t2 m time_asleep_small)
    next
      assume q: "int (took (fn 1)) + int (took (fn 2)) < 2 * Second"
      from n1 b have "n = 1 \<or> n = 2 \<or> n = 3" by arith
      then show "n = 3"
      proof (elim disjE)
        assume "n = 1"
        with late q show ?thesis by (simp add: t1 time_asleep_small)
      next
        assume "n = 2"
        with late q show ?thesis by (simp add: t2 time_asleep_small)
      qed
    qed
    from e b b' c d f show ?thesis by blast
  qed
  note early' = early [unfolded time_asleep_min]
    and ev' = ev [unfolded backoff_of_min]
    and el' = el [unfolded time_asleep_min]
    and three' = three [unfolded time_asleep_min]
  from n1 rt early' ev' el' dl three' show ?thesis
    unfolding Let_def r_def [symmetric] n_def [symmetric]
    by blast
qed

theorem Try_retry_contract_witness:
  "(\<forall>k. failed (always_down k))
   \<and> Try always_down (3 * Second) = Returns (Some (Errorf ''connection refused''))
   \<and> attempts (Try_run always_down (3 * Second)) = 3
   \<and> int (took (always_down 1)) + int (took (always_down 2)) < 2 * Second
   \<and> elapsed (Try_run always_down (3 * Second)) = 3000000000
   \<and> events (Try_run always_down (3 * Second))
       = [Invoke 1, Sleep 1000000000, Invoke 2, Sleep 2000000000, Invoke 3]
   \<and> attempts (Try_run always_down (466 * Second)) = 32
   \<and> elapsed (Try_run always_down (466 * Second)) = 495000000000
   \<and> drop 60 (events (Try_run always_down (466 * Second)))
       = [Invoke 31, Sleep 30000000000, Invoke 32]"
proof -
  have down: "\<forall>k. failed (always_down k)"
    by (simp add: failed_def always_down_def)
  have quick: "int (took (always_down 1)) + int (took (always_down 2)) < 2 * Second"
    by (simp add: always_down_def Second_def)
  from Try_retry_contract [of always_down "3 * Second"] down quick
  have "attempts (Try_run always_down (3 * Second)) = 3"
    by (simp add: Let_def)
  with down quick show ?thesis
    by (simp add: Try_run_always_down Try_run_capped Try_def)
qed

text \<open>
  Claim C7, as stated, fails in its consequence: a function that always fails and takes
  three seconds per call is called once by \<open>Try fn 3s\<close>, not twice; one that takes nine
  tenths of a second per call is called three times and \<open>Try\<close> returns 5.7s after the start.
\<close>

theorem Try_slow_function_called_once:
  "failed (always_slow 1)
   \<and> attempts (Try_run always_slow (3 * Second)) = 1
   \<and> \<not> 2 \<le> attempts (Try_run always_slow (3 * Second))
   \<and> events (Try_run always_slow (3 * Second)) = [Invoke 1]
   \<and> Try always_slow (3 * Second) = Returns (Some (Errorf ''connection refused''))
   \<and> failed (always_sluggish 1) \<and> failed (always_sluggish 2) \<and> failed (always_sluggish 3)
   \<and> attempts (Try_run always_sluggish (3 * Second)) = 3
   \<and> events (Try_run always_sluggish (3 * Second))
       = [Invoke 1, Sleep 1000000000, Invoke 2, Sleep 2000000000, Invoke 3]
   \<and> elapsed (Try_run always_sluggish (3 * Second)) = 5700000000
   \<and> \<not> elapsed (Try_run always_sluggish (3 * Second)) \<le> 5 * Second"
proof -
  have slow: "Try_run always_slow (3 * Second) =
      \<lparr>ret = Returns (Some (Errorf ''connection refused'')), attempts = 1,
       elapsed = 3000000000, events = [Invoke 1]\<rparr>"
    by (simp add: Try_run_def Try_loop.simps always_slow_def Second_def)
  have sluggish: "Try_run always_sluggish (3 * Second) =
      \<lparr>ret = Returns (Some (Errorf ''connection refused'')), attempts = 3,
       elapsed = 5700000000,
       events = [Invoke 1, Sleep 1000000000, Invoke 2, Sleep 2000000000, Invoke 3]\<rparr>"
    by (simp add: Try_run_def Try_loop.simps always_sluggish_def Second_def backoff_of_def
        numeral_2_eq_2 numeral_3_eq_3)
  show ?thesis
    unfolding Try_def slow sluggish
    by (simp add: failed_def always_slow_def always_sluggish_def Second_def)
qed

text \<open>
  Claim C9. No run of \<open>Try\<close> ends in a panic, whatever the calls of \<open>fn\<close> do. A panic of
  \<open>fn\<close> is recovered inside the loop and becomes the error of that attempt: an \<open>error\<close>
  panic value as it is, a string as a \<open>PanicError\<close> with that message, any other value as
  the \<open>PanicError\<close> "unknown panic". The attempt counts as failed, and when it is the last
  one its error is what \<open>Try\<close> returns.
\<close>

theorem Try_recovers_panics:
  "Try fn maxDuration \<noteq> Panics r
   \<and> guarded_call (Panics (PError e)) = Returns (Some e)
   \<and> guarded_call (Panics (PString msg)) = Returns (Some (PanicError msg))
   \<and> guarded_call (Panics POther) = Returns (Some (PanicError ''unknown panic''))
   \<and> failed \<lparr>result = Panics v, took = d\<rparr>
   \<and> (result (fn (attempts (Try_run fn maxDuration))) = Panics v \<longrightarrow>
        Try fn maxDuration = Returns (Some (recoverToError v)))"
proof -
  have rt: "Try fn maxDuration = guarded_call (result (fn (attempts (Try_run fn maxDuration))))"
    unfolding Try_def Try_run_def by (rule ret_Try_loop)
  have "guarded_call c \<noteq> Panics r" for c :: "error option outcome"
    by (cases c) (simp_all add: guarded_call_def recover_def)
  then have "Try fn maxDuration \<noteq> Panics r" by (simp add: rt)
  moreover have "result (fn (attempts (Try_run fn maxDuration))) = Panics v \<Longrightarrow>
      Try fn maxDuration = Returns (Some (recoverToError v))"
    by (simp add: rt)
  ultimately show ?thesis by (simp add: failed_def)
qed

theorem Try_recovers_panics_witness:
  "result (always_panics (attempts (Try_run always_panics (3 * Second)))) = Panics (PString ''boom'')
   \<and> Try always_panics (3 * Second) = Returns (Some (PanicError ''boom''))"
  using Try_recovers_panics [of always_panics "3 * Second" _ _ _ "PString ''boom''"]
  by (simp add: always_panics_def)

section \<open>Initialisation: what each step changes\<close>

lemma dials_append [simp]: "dials (xs @ ys) = dials xs + dials ys"
  by (simp add: dials_def)

lemma acquired_append [simp]: "acquired nm (xs @ ys) = acquired nm xs @ acquired nm ys"
  by (simp add: acquired_def)

lemma dials_simps [simp]: "dials [] = 0" "dials (a # tr) = (if is_Dial a then 1 else 0) + dials tr"
  by (simp_all add: dials_def)

lemma acquired_simps [simp]: "acquired nm [] = []" "acquired nm (a # tr) = taken nm a @ acquired nm tr"
  by (simp_all add: acquired_def)

lemma same_package_refl [simp]: "same_package s s"
  by (simp add: same_package_def)

lemma same_package_trans: "same_package s s1 \<Longrightarrow> same_package s1 s2 \<Longrightarrow> same_package s s2"
  by (simp add: same_package_def)

lemma request_effect:
  assumes "request a s = (r, s1)"
  shows "same_package s s1" "connRng s1 = connRng s" "rng s1 = rng s" "slots s1 = slots s"
    "fresh s1 = fresh s" "trace s1 = trace s @ [a]"
  using assms
  by (auto simp: request_def reply_def emit_def same_package_def split: list.splits)

lemma create_effect:
  assumes "create a s = (r, s1)"
  shows "same_package s s1" "connRng s1 = connRng s" "rng s1 = rng s" "slots s1 = slots s"
    "trace s1 = trace s @ [a]"
    "case r of Inl e \<Rightarrow> fresh s1 = fresh s | Inr x \<Rightarrow> x = fresh s \<and> fresh s1 = fresh s + 1"
  using assms
  by (auto simp: create_def request_def reply_def emit_def same_package_def
      split: list.splits option.splits)

lemma dial_loop_effect:
  "dial_loop nm url j s = (res, s') \<Longrightarrow>
     same_package s s' \<and> rng s' = rng s \<and> slots s' = slots s \<and> fresh s \<le> fresh s'
     \<and> dom (connRng s') = dom (connRng s) \<and> res \<noteq> Blocks
     \<and> dials (trace s') \<le> dials (trace s) + j
     \<and> acquired k (trace s') = acquired k (trace s)
     \<and> (\<forall>n. n \<noteq> nm \<longrightarrow> connRng s' n = connRng s n)"
proof (induction j arbitrary: s)
  case 0
  then show ?case by auto
next
  case (Suc j)
  obtain r s1 where c: "create (Dial url) s = (r, s1)" by (cases "create (Dial url) s")
  note ce = create_effect [OF c]
  show ?case
  proof (cases r)
    case (Inl e)
    with Suc.prems c ce show ?thesis by (auto simp: amqp_Dial_def)
  next
    case (Inr conn)
    show ?thesis
    proof (cases "connRng s1 nm")
      case None
      with Suc.prems c ce Inr show ?thesis by (auto simp: amqp_Dial_def)
    next
      case (Some cr)
      define cr2 where "cr2 = (connRng s1)(nm \<mapsto> ring_Next (ring_set_Value conn cr))"
      from Suc.prems c Inr Some have "dial_loop nm url j (s1\<lparr>connRng := cr2\<rparr>) = (res, s')"
        by (simp add: amqp_Dial_def cr2_def)
      note IH = Suc.IH [OF this, simplified]
      have a: "same_package s (s1\<lparr>connRng := cr2\<rparr>)" using ce(1) by (simp add: same_package_def)
      have d: "dom cr2 = dom (connRng s)"
        using Some ce(2) by (auto simp: cr2_def)
      have o: "n \<noteq> nm \<Longrightarrow> cr2 n = connRng s n" for n
        using ce(2) by (simp add: cr2_def)
      have f: "fresh s \<le> fresh s1" using ce(6) Inr by simp
      show ?thesis
      proof (intro conjI)
        show "same_package s s'" using IH a by (blast intro: same_package_trans)
        show "rng s' = rng s" using IH ce(3) by simp
        show "slots s' = slots s" using IH ce(4) by simp
        show "fresh s \<le> fresh s'" using IH f by linarith
        show "dom (connRng s') = dom (connRng s)" using IH d by simp
        show "res \<noteq> Blocks" using IH by simp
        show "dials (trace s') \<le> dials (trace s) + Suc j" using IH ce(5) by simp
        show "acquired k (trace s') = acquired k (trace s)" using IH ce(5) by simp
        show "\<forall>n. n \<noteq> nm \<longrightarrow> connRng s' n = connRng s n" using IH o by simp
      qed
    qed
  qed
qed

lemma rotate1_fill:
  "rotate1 (Some x # replicate j None @ map Some ids) = replicate j None @ map Some (ids @ [x])"
  by simp

lemma publish_loop_effect:
  "publish_loop nm confirmLen j s = (res, s') \<Longrightarrow>
     same_package s s' \<and> fresh s \<le> fresh s'
     \<and> dom (connRng s') = dom (connRng s) \<and> res \<noteq> Blocks
     \<and> dials (trace s') = dials (trace s)
     \<and> acquired k (trace s') = acquired k (trace s)
     \<and> dom (rng s') = dom (rng s)
     \<and> (\<forall>n. n \<noteq> nm \<longrightarrow> rng s' n = rng s n \<and> connRng s' n = connRng s n)
     \<and> (\<forall>ids. rng s nm = Some (replicate j None @ map Some ids) \<and> distinct ids
             \<and> (\<forall>i \<in> set ids. i < fresh s) \<and> res = Returns None \<longrightarrow>
           (\<exists>ids'. rng s' nm = Some (map Some ids') \<and> distinct ids'
               \<and> length ids' = j + length ids \<and> (\<forall>i \<in> set ids'. i < fresh s')))"
proof (induction j arbitrary: s)
  case 0
  then show ?case by auto
next
  case (Suc j)
  show ?case
  proof (cases "connRng s nm")
    case None
    with Suc.prems show ?thesis by auto
  next
    case (Some cr)
    define cm where "cm = (connRng s)(nm \<mapsto> ring_Next cr)"
    define s1 where "s1 = s\<lparr>connRng := cm\<rparr>"
    have s1: "same_package s s1" "rng s1 = rng s" "fresh s1 = fresh s" "trace s1 = trace s"
      "dom (connRng s1) = dom (connRng s)" "\<And>n. n \<noteq> nm \<Longrightarrow> connRng s1 n = connRng s n"
      "slots s1 = slots s"
      using Some by (auto simp: s1_def cm_def same_package_def)
    show ?thesis
    proof (cases "ring_Value (ring_Next cr)")
      case None
      with Suc.prems Some s1 show ?thesis by (auto simp: s1_def cm_def)
    next
      case conn: (Some conn)
      obtain r2 s2 where c: "create (OpenChannel conn) s1 = (r2, s2)"
        by (cases "create (OpenChannel conn) s1")
      note ce = create_effect [OF c]
      show ?thesis
      proof (cases r2)
        case (Inl e)
        with Suc.prems Some conn c have "res = Returns (Some (Wrapf ''error creating publish channel: '' e))"
          and "s' = s2"
          by (auto simp: conn_Channel_def s1_def cm_def)
        with s1 ce Inl show ?thesis
          by (auto intro: same_package_trans)
      next
        case (Inr pchn)
        obtain r3 s3 where q: "request (Confirm pchn False) s2 = (r3, s3)"
          by (cases "request (Confirm pchn False) s2")
        note qe = request_effect [OF q]
        have s3: "same_package s s3" "rng s3 = rng s" "fresh s3 = fresh s + 1"
          "trace s3 = trace s @ [OpenChannel conn, Confirm pchn False]"
          "dom (connRng s3) = dom (connRng s)" "\<And>n. n \<noteq> nm \<Longrightarrow> connRng s3 n = connRng s n"
          using s1 ce qe Inr by (auto intro: same_package_trans)
        show ?thesis
        proof (cases r3)
          case (Some e)
          with Suc.prems \<open>connRng s nm = Some cr\<close> conn c Inr q
          have "res = Returns (Some (Wrapf ''error enabling confirm mode: '' e))"
            and "s' = emit (CloseChannel pchn) s3"
            by (auto simp: conn_Channel_def s1_def cm_def)
          with s3 show ?thesis
            by (auto simp: emit_def same_package_def)
        next
          case None
          define sl where "sl = (slots s3)(fresh s3 := \<lparr>chn = pchn, lock = False, rtrn = 0, wg = 0, closed = False\<rparr>)"
          define s6 where "s6 = emit (GoPublishConfirm (fresh s3))
             ((emit (NotifyPublish pchn (fresh s3) confirmLen) s3)\<lparr>fresh := fresh s3 + 1, slots := sl\<rparr>)"
          have s6: "same_package s s6" "rng s6 = rng s" "fresh s6 = fresh s + 2"
            "dials (trace s6) = dials (trace s)" "acquired k (trace s6) = acquired k (trace s)"
            "dom (connRng s6) = dom (connRng s)" "\<And>n. n \<noteq> nm \<Longrightarrow> connRng s6 n = connRng s n"
            using s3 by (auto simp: s6_def emit_def same_package_def)
          have step: "publish_loop nm confirmLen (Suc j) s =
              (case rng s6 nm of None \<Rightarrow> (Panics nil_dereference, s6)
               | Some r \<Rightarrow> publish_loop nm confirmLen j
                    (s6\<lparr>rng := (rng s6)(nm \<mapsto> ring_Next (ring_set_Value (fresh s3) r))\<rparr>))"
            using \<open>connRng s nm = Some cr\<close> conn c Inr q \<open>r3 = None\<close>
            by (simp add: conn_Channel_def s1_def cm_def s6_def sl_def Let_def emit_def split: option.split)
          show ?thesis
          proof (cases "rng s nm")
            case None
            with Suc.prems step s6(2)
            have "res = Panics nil_dereference" and "s' = s6"
              by auto
            with s6 None show ?thesis by auto
          next
            case (Some r)
            define rm where "rm = (rng s6)(nm \<mapsto> ring_Next (ring_set_Value (fresh s3) r))"
            from Suc.prems step s6(2) Some
            have "publish_loop nm confirmLen j (s6\<lparr>rng := rm\<rparr>) = (res, s')"
              by (simp add: rm_def)
            note IH = Suc.IH [OF this, simplified]
            have a: "same_package s (s6\<lparr>rng := rm\<rparr>)" using s6(1) by (simp add: same_package_def)
            have d: "dom rm = dom (rng s)" using Some s6(2) by (auto simp: rm_def)
            have o: "n \<noteq> nm \<Longrightarrow> rm n = rng s n" for n using s6(2) by (simp add: rm_def)
            have rmn: "rm nm = Some (ring_Next (ring_set_Value (fresh s3) r))" by (simp add: rm_def)
            show ?thesis
            proof (intro conjI allI impI)
              show "same_package s s'" using IH a by (blast intro: same_package_trans)
              show "fresh s \<le> fresh s'" using IH s6(3) by linarith
              show "dom (connRng s') = dom (connRng s)" using IH s6(6) by simp
              show "res \<noteq> Blocks" using IH by simp
              show "dials (trace s') = dials (trace s)" using IH s6(4) by simp
              show "acquired k (trace s') = acquired k (trace s)" using IH s6(5) by simp
              show "dom (rng s') = dom (rng s)" using IH d by simp
              show "rng s' n = rng s n" if "n \<noteq> nm" for n using IH o that by simp
              show "connRng s' n = connRng s n" if "n \<noteq> nm" for n using IH s6(7) that by simp
              fix ids
              assume h: "rng s nm = Some (replicate (Suc j) None @ map Some ids) \<and> distinct ids
                 \<and> (\<forall>i \<in> set ids. i < fresh s) \<and> res = Returns None"
              then have r: "r = None # replicate j None @ map Some ids" using Some by simp
              have "rm nm = Some (replicate j None @ map Some (ids @ [fresh s3]))"
                unfolding rmn r by (simp add: ring_Next_def ring_set_Value_def)
              moreover have "distinct (ids @ [fresh s3])" using h s3(3) by auto
              moreover have "\<forall>i \<in> set (ids @ [fresh s3]). i < fresh s6" using h s3(3) s6(3) by auto
              ultimately have "\<exists>ids'. rng s' nm = Some (map Some ids') \<and> distinct ids'
                  \<and> length ids' = j + length (ids @ [fresh s3]) \<and> (\<forall>i \<in> set ids'. i < fresh s')"
                using IH h by blast
              then show "\<exists>ids'. rng s' nm = Some (map Some ids') \<and> distinct ids'
                  \<and> length ids' = Suc j + length ids \<and> (\<forall>i \<in> set ids'. i < fresh s')"
                by simp
            qed
          qed
        qed
      qed
    qed
  qed
qed

declare publish_loop.simps [simp del] dial_loop.simps [simp del]

lemma initializeConnection_locked_effect:
  assumes run: "initializeConnection_locked expected cnt url s = (res, s')"
  shows "same_package s s'" "fresh s \<le> fresh s'"
    "dom (connRng s') = insert (containerName expected) (dom (connRng s))"
    "res \<noteq> Blocks"
    "dials (trace s') \<le> dials (trace s) + nat cnt"
    "acquired k (trace s') = acquired k (trace s)"
    "n \<noteq> containerName expected \<Longrightarrow> rng s' n = rng s n \<and> connRng s' n = connRng s n"
    "res = Returns None \<Longrightarrow>
       \<exists>ids. rng s' (containerName expected) = Some (map Some ids) \<and> distinct ids
          \<and> length ids = pool_size (viper s)"
proof -
  define nm where "nm = containerName expected"
  define cm where "cm = (connRng s)(nm \<mapsto> (ring_New (nat cnt) :: nat ring))"
  define s1 where "s1 = s\<lparr>connRng := cm\<rparr>"
  obtain r2 s2 where d: "dial_loop nm url (nat cnt) s1 = (r2, s2)"
    by (cases "dial_loop nm url (nat cnt) s1")
  note de = dial_loop_effect [OF d, of k]
  have s2: "same_package s s2" "rng s2 = rng s" "fresh s \<le> fresh s2"
    "dom (connRng s2) = insert nm (dom (connRng s))" "r2 \<noteq> Blocks"
    "dials (trace s2) \<le> dials (trace s) + nat cnt"
    "acquired k (trace s2) = acquired k (trace s)"
    "\<And>n. n \<noteq> nm \<Longrightarrow> connRng s2 n = connRng s n"
    using de by (auto simp: s1_def cm_def same_package_def)
  have all: "same_package s s' \<and> fresh s \<le> fresh s'
    \<and> dom (connRng s') = insert nm (dom (connRng s))
    \<and> res \<noteq> Blocks
    \<and> dials (trace s') \<le> dials (trace s) + nat cnt
    \<and> acquired k (trace s') = acquired k (trace s)
    \<and> (\<forall>n. n \<noteq> nm \<longrightarrow> rng s' n = rng s n \<and> connRng s' n = connRng s n)
    \<and> (res = Returns None \<longrightarrow>
       (\<exists>ids. rng s' nm = Some (map Some ids) \<and> distinct ids
          \<and> length ids = pool_size (viper s)))"
  proof (cases "r2 = Returns None")
    case False
    with run d have "res = r2" "s' = s2"
      by (auto simp: initializeConnection_locked_def Let_def nm_def s1_def cm_def
          split: outcome.splits option.splits)
    with s2 False show ?thesis by auto
  next
    case ok: True
    show ?thesis
    proof (cases "connRng s2 nm")
      case None
      with run d ok have "res = Panics nil_dereference" "s' = s2"
        by (auto simp: initializeConnection_locked_def Let_def nm_def s1_def cm_def)
      with s2 show ?thesis by auto
    next
      case (Some cr)
      define cm3 where "cm3 = (connRng s2)(nm \<mapsto> ring_Next cr)"
      define s3 where "s3 = s2\<lparr>connRng := cm3\<rparr>"
      have s3: "same_package s s3" "rng s3 = rng s" "fresh s \<le> fresh s3"
        "dom (connRng s3) = insert nm (dom (connRng s))"
        "dials (trace s3) \<le> dials (trace s) + nat cnt"
        "acquired k (trace s3) = acquired k (trace s)"
        "\<And>n. n \<noteq> nm \<Longrightarrow> connRng s3 n = connRng s n"
        using s2 Some by (auto simp: s3_def cm3_def same_package_def)
      show ?thesis
      proof (cases "ring_Value (ring_Next cr)")
        case None
        with run d ok Some have "res = Panics nil_conversion" "s' = s3"
          by (auto simp: initializeConnection_locked_def Let_def nm_def s1_def cm_def s3_def cm3_def)
        with s3 show ?thesis by auto
      next
        case conn: (Some conn)
        obtain r4 s4 where c: "create (OpenChannel conn) s3 = (r4, s4)"
          by (cases "create (OpenChannel conn) s3")
        note ce = create_effect [OF c]
        have s4: "same_package s s4" "rng s4 = rng s" "fresh s \<le> fresh s4"
          "dom (connRng s4) = insert nm (dom (connRng s))"
          "dials (trace s4) \<le> dials (trace s) + nat cnt"
          "acquired k (trace s4) = acquired k (trace s)"
          "\<And>n. n \<noteq> nm \<Longrightarrow> connRng s4 n = connRng s n"
          using s3 ce by (auto intro: same_package_trans split: sum.splits)
        show ?thesis
        proof (cases r4)
          case (Inl e)
          with run d ok Some conn c have "res = Returns (Some (Wrapf ''error creating channel: '' e))"
            "s' = s4"
            by (auto simp: initializeConnection_locked_def Let_def nm_def s1_def cm_def s3_def
                cm3_def conn_Channel_def)
          with s4 show ?thesis by auto
        next
          case (Inr ch)
          obtain r5 s5 where q: "request (ExchangeDeclare ch (exchange_name (viper s4))
              (exchange_type (viper s4)) True False False False) s4 = (r5, s5)"
            by (cases "request (ExchangeDeclare ch (exchange_name (viper s4))
              (exchange_type (viper s4)) True False False False) s4")
          note qe = request_effect [OF q]
          define s6 where "s6 = emit (CloseChannel ch) s5"
          have s6: "same_package s s6" "rng s6 = rng s" "fresh s \<le> fresh s6"
            "dom (connRng s6) = insert nm (dom (connRng s))"
            "dials (trace s6) \<le> dials (trace s) + nat cnt"
            "acquired k (trace s6) = acquired k (trace s)"
            "\<And>n. n \<noteq> nm \<Longrightarrow> connRng s6 n = connRng s n"
            using s4 qe by (auto simp: s6_def emit_def same_package_def)
          show ?thesis
          proof (cases r5)
            case (Some e)
            with run d ok \<open>connRng s2 nm = Some cr\<close> conn c Inr q
            have "res = Returns (Some (Wrapf ''error declaring exchange: '' e))" "s' = s6"
              by (auto simp: initializeConnection_locked_def Let_def nm_def s1_def cm_def s3_def
                  cm3_def conn_Channel_def s6_def)
            with s6 show ?thesis by auto
          next
            case None
            define rm where "rm = (rng s6)(nm \<mapsto> (ring_New (pool_size (viper s)) :: nat ring))"
            have v: "viper s5 = viper s" using s4(1) qe(1) by (simp add: same_package_def)
            have "initializeConnection_locked expected cnt url s = publish_loop nm
                (if rabbit_confirm_len (viper s) < 1 then 100 else rabbit_confirm_len (viper s))
                (pool_size (viper s)) (s6\<lparr>rng := rm\<rparr>)"
              using d [unfolded s1_def cm_def nm_def] ok
                \<open>connRng s2 nm = Some cr\<close> [unfolded nm_def] conn
                c [unfolded s3_def cm3_def nm_def] Inr q None
              unfolding s6_def rm_def nm_def pool_size_def
              by (simp add: initializeConnection_locked_def Let_def conn_Channel_def emit_def v
                  cong: if_cong)
            with run have p: "publish_loop nm
                (if rabbit_confirm_len (viper s) < 1 then 100 else rabbit_confirm_len (viper s))
                (pool_size (viper s)) (s6\<lparr>rng := rm\<rparr>) = (res, s')"
              by simp
            note pe = publish_loop_effect [OF p, of k, simplified]
            have a: "same_package s (s6\<lparr>rng := rm\<rparr>)" using s6(1) by (simp add: same_package_def)
            have rmn: "rm nm = Some (replicate (pool_size (viper s)) None @ map Some [])"
              by (simp add: rm_def ring_New_def)
            have o: "n \<noteq> nm \<Longrightarrow> rm n = rng s n" for n using s6(2) by (simp add: rm_def)
            show ?thesis
            proof (intro conjI allI impI)
              show "same_package s s'" using pe a by (blast intro: same_package_trans)
              show "fresh s \<le> fresh s'" using pe s6(3) by linarith
              show "dom (connRng s') = insert nm (dom (connRng s))" using pe s6(4) by simp
              show "res \<noteq> Blocks" using pe by simp
              show "dials (trace s') \<le> dials (trace s) + nat cnt" using pe s6(5) by simp
              show "acquired k (trace s') = acquired k (trace s)" using pe s6(6) by simp
              show "rng s' n = rng s n" if "n \<noteq> nm" for n using pe o that by simp
              show "connRng s' n = connRng s n" if "n \<noteq> nm" for n using pe s6(7) that by simp
              assume "res = Returns None"
              with pe rmn have "\<exists>ids'. rng s' nm = Some (map Some ids') \<and> distinct ids'
                  \<and> length ids' = pool_size (viper s) + length ([] :: nat list)
                  \<and> (\<forall>i \<in> set ids'. i < fresh s')"
                by (metis distinct.simps(1) empty_iff list.set(1))
              then show "\<exists>ids. rng s' nm = Some (map Some ids) \<and> distinct ids
                  \<and> length ids = pool_size (viper s)"
                by auto
            qed
          qed
        qed
      qed
    qed
  qed
  from all show "same_package s s'" "fresh s \<le> fresh s'"
    "dom (connRng s') = insert (containerName expected) (dom (connRng s))"
    "res \<noteq> Blocks"
    "dials (trace s') \<le> dials (trace s) + nat cnt"
    "acquired k (trace s') = acquired k (trace s)"
    "n \<noteq> containerName expected \<Longrightarrow> rng s' n = rng s n \<and> connRng s' n = connRng s n"
    "res = Returns None \<Longrightarrow>
       \<exists>ids. rng s' (containerName expected) = Some (map Some ids) \<and> distinct ids
          \<and> length ids = pool_size (viper s)"
    by (simp_all add: nm_def)
qed

lemma initializeConnection_effect:
  assumes free: "\<not> connRngLock s" "connRngReaders s = 0" "\<not> rngLock s"
    and run: "initializeConnection expected s = (res, s')"
  shows "res \<noteq> Blocks"
    and "\<not> connRngLock s' \<and> connRngReaders s' = 0 \<and> \<not> rngLock s'"
    and "once s' = once s \<and> rabbitConnExpected s' = rabbitConnExpected s
         \<and> notifyClose s' = notifyClose s \<and> viper s' = viper s
         \<and> healthzRegistered s' = healthzRegistered s \<and> closeListener s' = closeListener s"
    and "dom (connRng s') = insert (containerName expected) (dom (connRng s))"
    and "dials (trace s') \<le> dials (trace s) + connection_count (viper s)"
    and "acquired k (trace s') = acquired k (trace s)"
    and "n \<noteq> containerName expected \<Longrightarrow> rng s' n = rng s n \<and> connRng s' n = connRng s n"
    and "res = Returns None \<Longrightarrow>
       \<exists>ids. rng s' (containerName expected) = Some (map Some ids) \<and> distinct ids
          \<and> length ids = pool_size (viper s)"
proof -
  define cnt where
    "cnt = (if rabbit_connection_num (viper s) < 1 then 1 else rabbit_connection_num (viper s))"
  define url where "url = Sprintf_amqp (user expected) (password expected) (host expected)
      (port expected) (vHost expected)"
  define s1 where "s1 = s\<lparr>killCancel := True, connRngLock := True, rngLock := True\<rparr>"
  obtain r2 s2 where l: "initializeConnection_locked expected cnt url s1 = (r2, s2)"
    by (cases "initializeConnection_locked expected cnt url s1")
  note le = initializeConnection_locked_effect [OF l]
  have r2: "r2 \<noteq> Blocks" by (rule le(4))
  have "initializeConnection expected s =
      (case initializeConnection_locked expected cnt url s1 of
         (Blocks, s2) \<Rightarrow> (Blocks, s2)
       | (res, s2) \<Rightarrow> (res, s2\<lparr>rngLock := False, connRngLock := False\<rparr>))"
    using free unfolding cnt_def url_def s1_def
    by (simp add: initializeConnection_def Let_def)
  with run l r2 have res: "res = r2" and s': "s' = s2\<lparr>rngLock := False, connRngLock := False\<rparr>"
    by (auto split: outcome.splits)
  have s1: "viper s1 = viper s" "trace s1 = trace s" "connRng s1 = connRng s" "rng s1 = rng s"
    by (simp_all add: s1_def)
  show "res \<noteq> Blocks" using res r2 by simp
  show "\<not> connRngLock s' \<and> connRngReaders s' = 0 \<and> \<not> rngLock s'"
    using le(1) free by (simp add: s' same_package_def s1_def)
  show "once s' = once s \<and> rabbitConnExpected s' = rabbitConnExpected s
         \<and> notifyClose s' = notifyClose s \<and> viper s' = viper s
         \<and> healthzRegistered s' = healthzRegistered s \<and> closeListener s' = closeListener s"
    using le(1) by (simp add: s' same_package_def s1_def)
  show "dom (connRng s') = insert (containerName expected) (dom (connRng s))"
    using le(3) by (simp add: s' s1)
  show "dials (trace s') \<le> dials (trace s) + connection_count (viper s)"
    using le(5) by (simp add: s' s1 connection_count_def cnt_def)
  show "acquired k (trace s') = acquired k (trace s)"
    using le(6) [of k] by (simp add: s' s1)
  show "rng s' n = rng s n \<and> connRng s' n = connRng s n" if "n \<noteq> containerName expected"
    using le(7) [OF that] by (simp add: s' s1)
  show "\<exists>ids. rng s' (containerName expected) = Some (map Some ids) \<and> distinct ids
          \<and> length ids = pool_size (viper s)" if "res = Returns None"
    using le(8) that res by (simp add: s' s1)
qed




lemma slots_built_0 [simp]: "slots_built cs f cl 0 = []"
  by (simp add: slots_built_def)


lemma length_slots_built [simp]: "length (slots_built cs f cl j) = 4 * j"
  by (simp add: slots_built_def length_concat comp_def sum_list_triv)



lemma hd_rotate_upt: "0 < c \<Longrightarrow> hd (rotate n [f..<f + c]) = f + n mod c"
  by (simp add: hd_rotate_conv_nth)

lemma slots_built_upt:
  "0 < c \<Longrightarrow>
   slots_built (rotate1 [f..<f + c]) g cl p =
     concat (map (\<lambda>j. [OpenChannel (f + (j + 2) mod c), Confirm (g + 2 * j) False,
                        NotifyPublish (g + 2 * j) (g + 2 * j + 1) cl,
                        GoPublishConfirm (g + 2 * j + 1)]) [0..<p])"
proof -
  assume c: "0 < c"
  have "hd (rotate (Suc i) (rotate1 [f..<f + c])) = f + (i + 2) mod c" for i
  proof -
    have "rotate (Suc i) (rotate1 [f..<f + c]) = rotate (i + 2) [f..<f + c]"
      by (simp add: rotate1_rotate_swap)
    then show ?thesis using hd_rotate_upt [OF c, of "i + 2" f] by simp
  qed
  then show ?thesis by (simp add: slots_built_def)
qed

lemma broker_startup_eq:
  "broker_startup cfg f e =
     replicate (connection_count cfg)
       (Dial (Sprintf_amqp (user e) (password e) (host e) (port e) (vHost e)))
     @ [OpenChannel (hd (rotate1 [f..<f + connection_count cfg])),
        ExchangeDeclare (f + connection_count cfg) (exchange_name cfg) (exchange_type cfg)
          True False False False,
        CloseChannel (f + connection_count cfg)]
     @ slots_built (rotate1 [f..<f + connection_count cfg]) (f + connection_count cfg + 1)
         (confirm_len cfg) (pool_size cfg)"
proof -
  have c: "0 < connection_count cfg" by (simp add: connection_count_def)
  have "hd (rotate1 [f..<f + connection_count cfg]) = f + 1 mod connection_count cfg"
    using hd_rotate_upt [OF c, of 1 f] by simp
  then show ?thesis
    by (simp add: broker_startup_def Let_def slots_built_upt [OF c] add.assoc)
qed





lemma length_broker_startup:
  "length (broker_startup cfg f e) = connection_count cfg + 3 + 4 * pool_size cfg"
  by (simp add: broker_startup_eq)



section \<open>The registry entry of a broker\<close>

lemma locked_first_dial_fails:
  assumes down: "replies s = Some err # rs" and pos: "0 < cnt"
  shows "initializeConnection_locked expected cnt url s =
     (Returns (Some (Wrapf ''error connecting to rabbit: '' err)),
      s\<lparr>connRng := (connRng s)(containerName expected \<mapsto> ring_New (nat cnt)),
        trace := trace s @ [Dial url], replies := rs\<rparr>)"
proof -
  obtain m where m: "nat cnt = Suc m"
    using pos by (cases "nat cnt") auto
  show ?thesis
    using down
    by (simp add: initializeConnection_locked_def Let_def m
        dial_loop.simps amqp_Dial_def create_def request_def reply_def emit_def)
qed

lemma first_dial_fails:
  assumes free: "\<not> connRngLock s" "connRngReaders s = 0" "\<not> rngLock s"
    and down: "replies s = Some err # rs"
  shows "initializeConnection expected s =
     (Returns (Some (Wrapf ''error connecting to rabbit: '' err)),
      s\<lparr>killCancel := True,
        connRng := (connRng s)(containerName expected \<mapsto> ring_New (connection_count (viper s))),
        trace := trace s @ [Dial (Sprintf_amqp (user expected) (password expected) (host expected)
                                   (port expected) (vHost expected))],
        replies := rs\<rparr>)"
proof -
  define cnt where
    "cnt = (if rabbit_connection_num (viper s) < 1 then 1 else rabbit_connection_num (viper s))"
  have pos: "0 < cnt" by (simp add: cnt_def)
  define s1 where "s1 = s\<lparr>killCancel := True, connRngLock := True, rngLock := True\<rparr>"
  have down1: "replies s1 = Some err # rs" using down by (simp add: s1_def)
  have eq: "initializeConnection expected s =
      (case initializeConnection_locked expected cnt
              (Sprintf_amqp (user expected) (password expected) (host expected)
                 (port expected) (vHost expected)) s1 of
         (Blocks, s2) \<Rightarrow> (Blocks, s2)
       | (res, s2) \<Rightarrow> (res, s2\<lparr>rngLock := False, connRngLock := False\<rparr>))"
    using free unfolding cnt_def s1_def
    by (simp add: initializeConnection_def Let_def)
  show ?thesis
    unfolding eq locked_first_dial_fails [OF down1 pos]
    using free
    by (auto intro!: rabbit.equality simp: s1_def connection_count_def cnt_def)
qed

text \<open>
  Claim C10. \<open>initializeConnection\<close> puts the broker's name into the connection registry
  before it dials: whatever its result, and in particular when the very first dial fails
  and the call ends with "error connecting to rabbit", the name is in the registry
  afterwards and \<open>GetConnection\<close> returns a handle for it. \<open>GetConnection\<close> returns a handle
  exactly for the names in the registry, and the "not found" error for every other name.
\<close>

theorem registry_entry_before_dial:
  assumes "\<not> connRngLock s" and "connRngReaders s = 0" and "\<not> rngLock s"
    and "initializeConnection expected s = (res, s')"
  shows "containerName expected \<in> dom (connRng s')
    \<and> fst (GetConnection (containerName expected) s')
        = Returns (Inr \<lparr>name = containerName expected\<rparr>)
    \<and> (\<forall>err rs. replies s = Some err # rs \<longrightarrow>
          res = Returns (Some (Wrapf ''error connecting to rabbit: '' err))
          \<and> dials (trace s') = dials (trace s) + 1)
    \<and> (\<forall>nm. (\<exists>c. fst (GetConnection nm s') = Returns (Inr c))
             \<longleftrightarrow> nm = containerName expected \<or> nm \<in> dom (connRng s))"
proof -
  note e = initializeConnection_effect [OF assms]
  have d: "dom (connRng s') = insert (containerName expected) (dom (connRng s))" by (rule e(4))
  have l: "\<not> connRngLock s'" using e(2) by simp
  have 1: "containerName expected \<in> dom (connRng s')" using d by simp
  then have 2: "fst (GetConnection (containerName expected) s')
        = Returns (Inr \<lparr>name = containerName expected\<rparr>)"
    using l by (auto simp: GetConnection_def)
  have 3: "res = Returns (Some (Wrapf ''error connecting to rabbit: '' err))
          \<and> dials (trace s') = dials (trace s) + 1" if "replies s = Some err # rs" for err rs
    using first_dial_fails [OF assms(1-3) that, of expected] assms(4) by auto
  have 4: "(\<exists>c. fst (GetConnection nm s') = Returns (Inr c))
             \<longleftrightarrow> nm = containerName expected \<or> nm \<in> dom (connRng s)" for nm
    using l d by (auto simp: GetConnection_def split: option.splits)
  from 1 2 3 4 show ?thesis by blast
qed

theorem registry_entry_before_dial_witness:
  "replies (main_registered [Some (Errorf ''refused'')]) = [Some (Errorf ''refused'')]
   \<and> fst (initializeConnection main_expected (main_registered [Some (Errorf ''refused'')]))
       = Returns (Some (Wrapf ''error connecting to rabbit: '' (Errorf ''refused'')))
   \<and> fst (GetConnection ''main''
        (snd (initializeConnection main_expected (main_registered [Some (Errorf ''refused'')]))))
       = Returns (Inr \<lparr>name = ''main''\<rparr>)
   \<and> fst (GetConnection ''other''
        (snd (initializeConnection main_expected (main_registered [Some (Errorf ''refused'')]))))
       = Returns (Inl (Errorf ''rabbitmq connection 'other' not found''))"
proof -
  let ?s = "main_registered [Some (Errorf ''refused'')]"
  have free: "\<not> connRngLock ?s" "connRngReaders ?s = 0" "\<not> rngLock ?s"
    and down: "replies ?s = [Some (Errorf ''refused'')]"
    by (simp_all add: main_registered_def start_def RegisterRabbitMq_def RegisterRabbit_def)
  have run: "initializeConnection main_expected ?s =
      (fst (initializeConnection main_expected ?s), snd (initializeConnection main_expected ?s))"
    by simp
  have c: "containerName main_expected = ''main''" by (simp add: main_expected_def)
  have empty: "connRng ?s = Map.empty"
    by (simp add: main_registered_def start_def RegisterRabbitMq_def RegisterRabbit_def)
  have other: "fst (GetConnection ''other'' (snd (initializeConnection main_expected ?s)))
       = Returns (Inl (Errorf ''rabbitmq connection 'other' not found''))"
    using free by (simp add: first_dial_fails [OF free down] GetConnection_def empty c)
  note claim = registry_entry_before_dial [OF free run]
  from claim have a: "fst (GetConnection (containerName main_expected)
        (snd (initializeConnection main_expected ?s)))
      = Returns (Inr \<lparr>name = containerName main_expected\<rparr>)"
    by blast
  from claim down have b: "fst (initializeConnection main_expected ?s)
      = Returns (Some (Wrapf ''error connecting to rabbit: '' (Errorf ''refused'')))"
    by blast
  from a b down other show ?thesis
    unfolding c by (intro conjI)
qed

section \<open>Initialize and the health check\<close>

lemma Initialize_range_effect:
  "unlocked s \<Longrightarrow> Initialize_range es s = (res, s') \<Longrightarrow>
     res \<noteq> Blocks \<and> unlocked s' \<and> notifyClose s' = notifyClose s
     \<and> closeListener s' = closeListener s \<and> viper s' = viper s \<and> once s' = once s
     \<and> dials (trace s') \<le> dials (trace s) + length es * connection_count (viper s)
     \<and> acquired k (trace s') = acquired k (trace s)
     \<and> dom (connRng s') \<subseteq> dom (connRng s) \<union> containerName ` set es"
proof (induction es arbitrary: s)
  case Nil
  then show ?case by (auto simp: emit_def unlocked_def)
next
  case (Cons e es)
  obtain r1 s1 where i: "initializeConnection e s = (r1, s1)"
    by (cases "initializeConnection e s")
  from Cons.prems(1) have free: "\<not> connRngLock s" "connRngReaders s = 0" "\<not> rngLock s"
    by (simp_all add: unlocked_def)
  note ie = initializeConnection_effect [OF free i]
  have u1: "unlocked s1" using ie(2) by (simp add: unlocked_def)
  have base: "notifyClose s1 = notifyClose s \<and> closeListener s1 = closeListener s
     \<and> viper s1 = viper s \<and> once s1 = once s
     \<and> dials (trace s1) \<le> dials (trace s) + connection_count (viper s)
     \<and> acquired k (trace s1) = acquired k (trace s)
     \<and> dom (connRng s1) \<subseteq> dom (connRng s) \<union> containerName ` set (e # es)"
    using ie(3) ie(4) ie(5) ie(6) [of k] by auto
  show ?case
  proof (cases r1)
    case (Returns x)
    show ?thesis
    proof (cases x)
      case None
      with Cons.prems(2) i Returns have "Initialize_range es s1 = (res, s')" by simp
      note IH = Cons.IH [OF u1 this]
      from IH have a: "dom (connRng s') \<subseteq> dom (connRng s1) \<union> containerName ` set es"
        by blast
      from base have b: "dom (connRng s1) \<subseteq> dom (connRng s) \<union> containerName ` set (e # es)"
        by blast
      from a b have sub: "dom (connRng s') \<subseteq> dom (connRng s) \<union> containerName ` set (e # es)"
        by auto
      from IH base have dl: "dials (trace s')
          \<le> dials (trace s) + length (e # es) * connection_count (viper s)"
        by simp
      from IH base sub dl show ?thesis by simp
    next
      case (Some err)
      with Cons.prems(2) i Returns have "res = Returns ()"
        and "s' = emit (Logrus ErrorLevel (''failed to initialize rabbit connection: '' @ Error err)) s1"
        by simp_all
      with base u1 show ?thesis by (auto simp: emit_def unlocked_def)
    qed
  next
    case (Panics r)
    with Cons.prems(2) i have "res = Panics r" "s' = s1" by simp_all
    with base u1 show ?thesis by auto
  next
    case Blocks
    with ie(1) show ?thesis by simp
  qed
qed


lemmas concrete_defs = main_registered_def start_def RegisterRabbitMq_def RegisterRabbit_def
  settings0_def main_expected_def

lemmas init_defs = initializeConnection_def initializeConnection_locked_def Let_def
  dial_loop.simps publish_loop.simps amqp_Dial_def conn_Channel_def create_def request_def
  reply_def emit_def ring_New_def ring_Next_def ring_Value_def ring_set_Value_def

lemma main_registered_facts:
  "\<not> once (main_registered rs)" "unlocked (main_registered rs)"
  "rabbitConnExpected (main_registered rs) = [main_expected]"
  "replies (main_registered rs) = rs" "trace (main_registered rs) = []"
  "rng (main_registered rs) = Map.empty" "\<not> healthzRegistered (main_registered rs)"
  "notifyClose (main_registered rs) = []" "closeListener (main_registered rs) = (\<lambda>_. False)"
  "connection_count (viper (main_registered rs)) = 2"
  "pool_size (viper (main_registered rs)) = 3"
  by (simp_all add: concrete_defs unlocked_def connection_count_def pool_size_def)





lemma both_registered_facts:
  "\<not> once (both_registered rs)" "unlocked (both_registered rs)"
  "replies (both_registered rs) = rs" "trace (both_registered rs) = []"
  by (simp_all add: both_registered_def concrete_defs unlocked_def)









lemma Health_reads_buffer:
  "fst (Health s) \<noteq> Blocks"
  "fst (Health s) \<noteq> Panics r"
  "(\<exists>e. fst (Health s) = Returns (Some e)) \<longleftrightarrow> (\<exists>e rest. notifyClose s = Some e # rest)"
  "notifyClose s = [] \<Longrightarrow> Health s = (Returns None, s)"
  by (auto simp: Health_def split: list.splits option.splits)

lemma notifyClose_never_fed:
  assumes "\<not> once s" and "unlocked s" and "notifyClose s = []" and "\<forall>c. \<not> closeListener s c"
  shows "notifyClose (connection_lost c e (snd (Initialize s))) = []"
    and "fst (Health (connection_lost c e (snd (Initialize s)))) = Returns None"
proof -
  have u: "unlocked (s\<lparr>once := True\<rparr>)" using assms(2) by (simp add: unlocked_def)
  have run: "Initialize_range (rabbitConnExpected s) (s\<lparr>once := True\<rparr>)
      = (fst (Initialize s), snd (Initialize s))"
    using assms(1) by (simp add: Initialize_def)
  note e = Initialize_range_effect [OF u run, of "[]"]
  from e assms(3,4) have "notifyClose (snd (Initialize s)) = []"
    and "\<forall>c. \<not> closeListener (snd (Initialize s)) c"
    by simp_all
  then show "notifyClose (connection_lost c e (snd (Initialize s))) = []"
    by (simp add: connection_lost_def)
  then show "fst (Health (connection_lost c e (snd (Initialize s)))) = Returns None"
    by (simp add: Health_reads_buffer(4))
qed

lemma Initialize_main_succeeds:
  "fst (Initialize (main_registered [])) = Returns ()"
  "healthzRegistered (snd (Initialize (main_registered [])))"
  "connRng (snd (Initialize (main_registered []))) ''main'' = Some [Some 0, Some 1]"
  "rng (snd (Initialize (main_registered []))) ''main'' = Some [Some 4, Some 6, Some 8]"
  by (simp_all add: Initialize_def init_defs concrete_defs numeral_2_eq_2 numeral_3_eq_3)

text \<open>
  Claim C4 at a failing input. After a successful \<open>Initialize\<close> with the broker "main",
  connection 0 is lost with an error; \<open>Health\<close> still returns nil, because no connection was
  ever handed the \<open>notifyClose\<close> buffer and the buffer stays empty. (\<open>Health\<close> itself does
  what the claim says of it: it never blocks, and it returns an error exactly when the
  record at the head of the buffer is a non-nil error.)
\<close>

theorem Health_blind_to_lost_connection:
  "fst (Initialize (main_registered [])) = Returns ()
   \<and> healthzRegistered (snd (Initialize (main_registered [])))
   \<and> connRng (snd (Initialize (main_registered []))) ''main'' = Some [Some 0, Some 1]
   \<and> fst (Health (connection_lost 0 (Errorf ''connection reset by peer'')
                   (snd (Initialize (main_registered []))))) = Returns None"
  using notifyClose_never_fed(2) [of "main_registered []" 0 "Errorf ''connection reset by peer''"]
  by (simp add: Initialize_main_succeeds main_registered_facts)

section \<open>Publish and Consume\<close>

lemma ring_frame_refl [simp]: "ring_frame k s s"
  by (simp add: ring_frame_def)

lemma ring_frame_trans: "ring_frame k s s1 \<Longrightarrow> ring_frame k s1 s2 \<Longrightarrow> ring_frame k s s2"
  by (auto simp: ring_frame_def)

lemma request_ring_frame:
  "request a s = (r, s1) \<Longrightarrow> taken k a = [] \<Longrightarrow> ring_frame k s s1"
  using request_effect [of a s r s1] by (simp add: ring_frame_def same_package_def)

lemma create_ring_frame:
  "create a s = (r, s1) \<Longrightarrow> taken k a = [] \<Longrightarrow> ring_frame k s s1"
  using create_effect [of a s r s1] by (simp add: ring_frame_def same_package_def)

lemma wg_Add_ring_frame: "wg_Add cl d s = (r, s1) \<Longrightarrow> ring_frame k s s1"
  by (auto simp: wg_Add_def Let_def emit_def ring_frame_def split: if_splits)

lemma publishConfirm_ring_frame: "publishConfirm cl s = (r, s1) \<Longrightarrow> ring_frame k s s1"
  by (auto simp: publishConfirm_def wg_Done_def ring_frame_def split: if_splits
      dest!: wg_Add_ring_frame [where k = k])

lemma wg_Wait_ring_frame:
  assumes "wg_Wait cl s = (r, s')"
  shows "ring_frame k s s'"
proof -
  obtain r1 s1 where q: "request (WgWait cl) s = (r1, s1)" by (cases "request (WgWait cl) s")
  have f1: "ring_frame k s s1" using request_ring_frame [OF q] by simp
  show ?thesis
  proof (cases r1)
    case (Some e)
    with assms q have "s' = s1" by (simp add: wg_Wait_def)
    with f1 show ?thesis by simp
  next
    case None
    obtain r2 s2 where p: "publishConfirm cl (confirmation_arrives cl s1) = (r2, s2)"
      by (cases "publishConfirm cl (confirmation_arrives cl s1)")
    have "ring_frame k s1 (confirmation_arrives cl s1)"
      by (simp add: confirmation_arrives_def ring_frame_def)
    with publishConfirm_ring_frame [OF p] f1 have f2: "ring_frame k s s2"
      by (blast intro: ring_frame_trans)
    from assms q None p have "s' = s2"
      by (auto simp: wg_Wait_def split: outcome.splits if_splits)
    with f2 show ?thesis by simp
  qed
qed

lemma Publish_declared_after_declare:
  assumes "Publish_declared cl ch queue body s = (r, s')"
  shows "ring_frame k (snd (request (QueueDeclare ch queue True False False False) s)) s'"
proof -
  obtain r1 s1 where q: "request (QueueDeclare ch queue True False False False) s = (r1, s1)"
    by (cases "request (QueueDeclare ch queue True False False False) s")
  have f1: "ring_frame k s1 s1" by simp
  have g: "snd (request (QueueDeclare ch queue True False False False) s) = s1" using q by simp
  have "ring_frame k s1 s'"
  proof (cases r1)
    case (Some e)
    with assms q have "s' = s1" by (simp add: Publish_declared_def)
    with f1 show ?thesis by simp
  next
    case None
    obtain r2 s2 where a: "wg_Add cl 1 s1 = (r2, s2)" by (cases "wg_Add cl 1 s1")
    have f2: "ring_frame k s1 s2"
      using f1 wg_Add_ring_frame [OF a] by (blast intro: ring_frame_trans)
    show ?thesis
    proof (cases "\<exists>u. r2 = Returns u")
      case False
      with assms q None a have "s' = s2"
        by (auto simp: Publish_declared_def split: outcome.splits)
      with f2 show ?thesis by simp
    next
      case True
      obtain r3 s3 where b: "request (BasicPublish (chn (slots s2 cl)) [] queue False False 2
            ''application/json'' body) s2 = (r3, s3)"
        by (cases "request (BasicPublish (chn (slots s2 cl)) [] queue False False 2
            ''application/json'' body) s2")
      have f3: "ring_frame k s1 s3"
        using f2 request_ring_frame [OF b] by (auto intro: ring_frame_trans)
      show ?thesis
      proof (cases r3)
        case (Some e)
        obtain r4 s4 where d: "wg_Done cl s3 = (r4, s4)" by (cases "wg_Done cl s3")
        then have "ring_frame k s3 s4" by (auto simp: wg_Done_def dest: wg_Add_ring_frame)
        with f3 have f4: "ring_frame k s1 s4" by (blast intro: ring_frame_trans)
        from assms q None a True b Some d have "s' = s4"
          by (auto simp: Publish_declared_def split: outcome.splits)
        with f4 show ?thesis by simp
      next
        case n3: None
        from assms q None a True b n3 have "wg_Wait cl s3 = (r, s')"
          by (auto simp: Publish_declared_def)
        from wg_Wait_ring_frame [OF this] f3 show ?thesis by (blast intro: ring_frame_trans)
      qed
    qed
  qed
  then show ?thesis by (simp add: g)
qed

lemma Publish_declared_ring_frame:
  assumes "Publish_declared cl ch queue body s = (r, s')"
  shows "ring_frame k s s'"
proof -
  obtain r1 s1 where q: "request (QueueDeclare ch queue True False False False) s = (r1, s1)"
    by (cases "request (QueueDeclare ch queue True False False False) s")
  have "ring_frame k s s1" using request_ring_frame [OF q] by simp
  moreover have "ring_frame k s1 s'" using Publish_declared_after_declare [OF assms, of k] q by simp
  ultimately show ?thesis by (rule ring_frame_trans)
qed

lemma Publish_declared_trace:
  "\<exists>rest. trace (snd (Publish_declared cl ch queue body s))
      = trace s @ QueueDeclare ch queue True False False False # rest"
proof -
  obtain r s' where p: "Publish_declared cl ch queue body s = (r, s')"
    by (cases "Publish_declared cl ch queue body s")
  obtain r1 s1 where q: "request (QueueDeclare ch queue True False False False) s = (r1, s1)"
    by (cases "request (QueueDeclare ch queue True False False False) s")
  have "trace s1 = trace s @ [QueueDeclare ch queue True False False False]"
    using request_effect(6) [OF q] .
  moreover have "\<exists>rest. trace s' = trace s1 @ rest"
    using Publish_declared_after_declare [OF p, of "[]"] q by (simp add: ring_frame_def)
  ultimately show ?thesis using p by auto
qed

lemma Publish_locked_ring_frame:
  assumes "Publish_locked c cl queue body s = (r, s')"
  shows "ring_frame k s s'"
proof (cases "closed (slots s cl) \<or> connRngLock s")
  case True
  with assms have "s' = s" by (auto simp: Publish_locked_def split: if_splits)
  then show ?thesis by simp
next
  case False
  define s1 where "s1 = s\<lparr>connRngReaders := connRngReaders s + 1\<rparr>"
  have f1: "ring_frame k s s1" by (simp add: s1_def ring_frame_def)
  show ?thesis
  proof (cases "connRng s (name c)")
    case None
    with assms False have "s' = s1" by (simp add: Publish_locked_def s1_def)
    with f1 show ?thesis by simp
  next
    case (Some cr)
    show ?thesis
    proof (cases "ring_Value cr")
      case None
      with assms False Some have "s' = s1" by (simp add: Publish_locked_def s1_def)
      with f1 show ?thesis by simp
    next
      case conn: (Some conn)
      define s2 where "s2 = s1\<lparr>connRngReaders := connRngReaders s1 - 1\<rparr>"
      have f2: "ring_frame k s s2" by (simp add: s2_def s1_def ring_frame_def)
      obtain r3 s3 where c: "create (OpenChannel conn) s2 = (r3, s3)"
        by (cases "create (OpenChannel conn) s2")
      have f3: "ring_frame k s s3"
        using f2 create_ring_frame [OF c] by (auto intro: ring_frame_trans)
      show ?thesis
      proof (cases r3)
        case (Inl e)
        with assms False Some conn c have "s' = s3"
          by (simp add: Publish_locked_def s1_def s2_def conn_Channel_def)
        with f3 show ?thesis by simp
      next
        case (Inr ch)
        obtain r4 s4 where d: "Publish_declared cl ch queue body s3 = (r4, s4)"
          by (cases "Publish_declared cl ch queue body s3")
        have f4: "ring_frame k s s4"
          using f3 Publish_declared_ring_frame [OF d] by (blast intro: ring_frame_trans)
        have f5: "ring_frame k s (emit (CloseChannel ch) s4)"
          using f4 by (auto simp: ring_frame_def emit_def)
        from assms False Some conn c Inr d have "s' = s4 \<or> s' = emit (CloseChannel ch) s4"
          by (auto simp: Publish_locked_def s1_def s2_def conn_Channel_def split: outcome.splits)
        with f4 f5 show ?thesis by auto
      qed
    qed
  qed
qed

lemma Publish_takes_slot:
  assumes free: "\<not> rngLock s" and ring: "rng s nm = Some (Some cl # rest)"
  shows "rng (snd (Publish \<lparr>name = nm\<rparr> queue body s)) = (rng s)(nm \<mapsto> rest @ [Some cl])"
    and "\<not> rngLock (snd (Publish \<lparr>name = nm\<rparr> queue body s))"
    and "acquired nm (trace (snd (Publish \<lparr>name = nm\<rparr> queue body s)))
          = acquired nm (trace s) @ [cl]"
proof -
  define s2 where "s2 = emit (RingAdvance nm cl)
      (s\<lparr>rngLock := True, rng := (rng s)(nm \<mapsto> rest @ [Some cl]), rngLock := False\<rparr>)"
  have s2: "rng s2 = (rng s)(nm \<mapsto> rest @ [Some cl])" "\<not> rngLock s2"
    "acquired nm (trace s2) = acquired nm (trace s) @ [cl]"
    by (simp_all add: s2_def emit_def)
  define s3 where "s3 = emit (SlotLock cl) (s2\<lparr>slots := (slots s2)(cl := (slots s2 cl)\<lparr>lock := True\<rparr>)\<rparr>)"
  have f3: "ring_frame nm s2 s3" by (simp add: s3_def ring_frame_def emit_def)
  obtain r4 s4 where l: "Publish_locked \<lparr>name = nm\<rparr> cl queue body s3 = (r4, s4)"
    by (cases "Publish_locked \<lparr>name = nm\<rparr> cl queue body s3")
  have f4: "ring_frame nm s2 s4"
    using f3 Publish_locked_ring_frame [OF l] by (blast intro: ring_frame_trans)
  define s5 where "s5 = emit (SlotUnlock cl) (s4\<lparr>slots := (slots s4)(cl := (slots s4 cl)\<lparr>lock := False\<rparr>)\<rparr>)"
  have f5: "ring_frame nm s2 s5" using f4 by (auto simp: s5_def ring_frame_def emit_def)
  have "Publish \<lparr>name = nm\<rparr> queue body s =
     (if lock (slots s2 cl) then (Blocks, s2)
      else case Publish_locked \<lparr>name = nm\<rparr> cl queue body s3 of
             (Blocks, s4) \<Rightarrow> (Blocks, s4)
           | (res, s4) \<Rightarrow> (res, emit (SlotUnlock cl) (s4\<lparr>slots := (slots s4)(cl := (slots s4 cl)\<lparr>lock := False\<rparr>)\<rparr>)))"
    using free ring unfolding s2_def s3_def
    by (simp add: Publish_def Let_def ring_Value_def ring_Next_def)
  with l have "snd (Publish \<lparr>name = nm\<rparr> queue body s) \<in> {s2, s4, s5}"
    by (auto simp: s5_def split: outcome.splits)
  with s2 f4 f5 show "rng (snd (Publish \<lparr>name = nm\<rparr> queue body s)) = (rng s)(nm \<mapsto> rest @ [Some cl])"
    and "\<not> rngLock (snd (Publish \<lparr>name = nm\<rparr> queue body s))"
    and "acquired nm (trace (snd (Publish \<lparr>name = nm\<rparr> queue body s)))
          = acquired nm (trace s) @ [cl]"
    by (auto simp: ring_frame_def)
qed

lemma Publish_seq_round_robin:
  "\<not> rngLock s \<Longrightarrow> rng s nm = Some (map Some ids) \<Longrightarrow> ids \<noteq> [] \<Longrightarrow>
   acquired nm (trace (Publish_seq nm calls s))
     = acquired nm (trace s) @ map (\<lambda>i. ids ! (i mod length ids)) [0..<length calls]"
proof (induction calls arbitrary: s ids)
  case Nil
  then show ?case by simp
next
  case (Cons call calls)
  obtain queue body where call: "call = (queue, body)" by (cases call)
  from Cons.prems(3) obtain x xs where ids: "ids = x # xs" by (cases ids) auto
  let ?s1 = "snd (Publish \<lparr>name = nm\<rparr> queue body s)"
  from Cons.prems(2) have ring: "rng s nm = Some (Some x # map Some xs)" by (simp add: ids)
  note t = Publish_takes_slot [OF Cons.prems(1) ring, of queue body]
  have r1: "rng ?s1 nm = Some (map Some (rotate1 ids))" using t(1) by (simp add: ids)
  have ne: "rotate1 ids \<noteq> []" by (simp add: ids)
  have "acquired nm (trace (Publish_seq nm calls ?s1))
     = acquired nm (trace ?s1) @ map (\<lambda>i. rotate1 ids ! (i mod length (rotate1 ids))) [0..<length calls]"
    by (rule Cons.IH [OF t(2) r1 ne])
  also have "acquired nm (trace ?s1) = acquired nm (trace s) @ [x]" by (rule t(3))
  also have "map (\<lambda>i. rotate1 ids ! (i mod length (rotate1 ids))) [0..<length calls]
      = map (\<lambda>i. ids ! (Suc i mod length ids)) [0..<length calls]"
    using Cons.prems(3) by (simp add: nth_rotate1 mod_Suc_eq)
  finally show ?case
    by (simp add: call map_upt_Suc ids del: upt_Suc)
qed

lemma window_distinct:
  assumes "distinct ids" and "i < i'" and "i' < i + length ids"
  shows "ids ! (i mod length ids) \<noteq> ids ! (i' mod length ids)"
proof -
  have n: "0 < length ids" using assms(2,3) by (cases ids) auto
  have "i mod length ids \<noteq> i' mod length ids"
  proof
    assume e: "i mod length ids = i' mod length ids"
    then have "(i' - i) mod length ids = 0"
      using assms(2) by (metis less_imp_le_nat mod_eq_dvd_iff_nat dvd_imp_mod_0)
    moreover have "0 < i' - i" "i' - i < length ids" using assms(2,3) by simp_all
    ultimately show False by simp
  qed
  moreover have "i mod length ids < length ids" "i' mod length ids < length ids"
    using n by simp_all
  ultimately show ?thesis using assms(1) by (simp add: nth_eq_iff_index_eq)
qed

lemma Publish_waits_for_ring_lock:
  "rngLock t \<Longrightarrow> Publish c queue body t = (Blocks, t)"
  by (simp add: Publish_def)

lemma Publish_seq_ring:
  "\<not> rngLock s \<Longrightarrow> rng s nm = Some (map Some ids) \<Longrightarrow> ids \<noteq> [] \<Longrightarrow>
   \<not> rngLock (Publish_seq nm calls s)
   \<and> rng (Publish_seq nm calls s) nm = Some (map Some (rotate (length calls) ids))"
proof (induction calls arbitrary: s ids)
  case Nil
  then show ?case by simp
next
  case (Cons call calls)
  obtain queue body where call: "call = (queue, body)" by (cases call)
  from Cons.prems(3) obtain x xs where ids: "ids = x # xs" by (cases ids) auto
  let ?s1 = "snd (Publish \<lparr>name = nm\<rparr> queue body s)"
  from Cons.prems(2) have ring: "rng s nm = Some (Some x # map Some xs)" by (simp add: ids)
  note t = Publish_takes_slot [OF Cons.prems(1) ring, of queue body]
  have r1: "rng ?s1 nm = Some (map Some (rotate1 ids))" using t(1) by (simp add: ids)
  have ne: "rotate1 ids \<noteq> []" by (simp add: ids)
  from Cons.IH [OF t(2) r1 ne] show ?case
    by (simp add: call rotate1_rotate_swap)
qed

text \<open>
  Claim C5. After a successful \<open>initializeConnection\<close> of a broker with a publish pool of
  size \<open>K\<close>, every \<open>Publish\<close> on that broker's name takes exactly one slot from the ring
  and turns the ring by exactly one position, and among any \<open>K\<close> consecutive \<open>Publish\<close>
  calls (the calls number \<open>i\<close> and \<open>i'\<close> with \<open>i < i' < i + K\<close>) no slot is taken twice.
  The ring is read and advanced inside the section guarded by the pool-level lock
  \<open>rngLock\<close>: a \<open>Publish\<close> that finds the lock held waits and advances nothing; the lock is
  taken before the ring is read (a call that panics while reading the ring of an unknown
  broker leaves it held); and it is released once the ring is advanced, so it is free
  after every call of the sequence.
\<close>

theorem Publish_round_robin:
  assumes "\<not> connRngLock s0" and "connRngReaders s0 = 0" and "\<not> rngLock s0"
    and "initializeConnection expected s0 = (Returns None, s)"
    and "i < i'" and "i' < i + pool_size (viper s0)" and "i' < length calls"
  shows "length (acquired (containerName expected) (trace (Publish_seq (containerName expected) calls s)))
           = length (acquired (containerName expected) (trace s)) + length calls
    \<and> acquired (containerName expected) (trace (Publish_seq (containerName expected) calls s))
         ! (length (acquired (containerName expected) (trace s)) + i)
       \<noteq> acquired (containerName expected) (trace (Publish_seq (containerName expected) calls s))
         ! (length (acquired (containerName expected) (trace s)) + i')
    \<and> (\<forall>j. rng (Publish_seq (containerName expected) (take j calls) s) (containerName expected)
             = map_option (rotate (min j (length calls))) (rng s (containerName expected))
           \<and> \<not> rngLock (Publish_seq (containerName expected) (take j calls) s))
    \<and> (\<forall>c queue body t. rngLock t \<longrightarrow> Publish c queue body t = (Blocks, t))
    \<and> (\<forall>c queue body t. \<not> rngLock t \<and> rng t (name c) = None \<longrightarrow>
          Publish c queue body t = (Panics nil_dereference, t\<lparr>rngLock := True\<rparr>))"
proof -
  let ?nm = "containerName expected"
  note e = initializeConnection_effect [OF assms(1-4)]
  from e(8) obtain ids where ids: "rng s ?nm = Some (map Some ids)" "distinct ids"
    "length ids = pool_size (viper s0)"
    by auto
  have ne: "ids \<noteq> []" using ids(3) assms(5,6) by auto
  have free: "\<not> rngLock s" using e(2) by simp
  note rr = Publish_seq_round_robin [OF free ids(1) ne, of calls]
  have w: "ids ! (i mod length ids) \<noteq> ids ! (i' mod length ids)"
    using window_distinct [OF ids(2) assms(5)] assms(6) ids(3) by simp
  have i: "i < length calls" using assms(5,7) by simp
  have a: "length (acquired ?nm (trace (Publish_seq ?nm calls s)))
           = length (acquired ?nm (trace s)) + length calls
    \<and> acquired ?nm (trace (Publish_seq ?nm calls s)) ! (length (acquired ?nm (trace s)) + i)
       \<noteq> acquired ?nm (trace (Publish_seq ?nm calls s)) ! (length (acquired ?nm (trace s)) + i')"
    using w i assms(7) by (simp add: rr nth_append del: upt_Suc)
  have b: "rng (Publish_seq ?nm (take j calls) s) ?nm
             = map_option (rotate (min j (length calls))) (rng s ?nm)
           \<and> \<not> rngLock (Publish_seq ?nm (take j calls) s)" for j
    using Publish_seq_ring [OF free ids(1) ne, of "take j calls"]
    by (simp add: ids(1) rotate_map min.commute)
  have c: "Publish c queue body t = (Blocks, t)" if "rngLock t" for c queue body t
    using that by (rule Publish_waits_for_ring_lock)
  have d: "Publish c queue body t = (Panics nil_dereference, t\<lparr>rngLock := True\<rparr>)"
    if "\<not> rngLock t \<and> rng t (name c) = None" for c queue body t
    using that by (simp add: Publish_def)
  from a b c d show ?thesis by blast
qed

theorem Publish_round_robin_witness:
  "fst (initializeConnection main_expected (main_registered [])) = Returns None
   \<and> pool_size (viper (main_registered [])) = 3
   \<and> acquired ''main'' (trace (Publish_seq ''main''
         [(''a'', ''1''), (''b'', ''2''), (''c'', ''3''), (''d'', ''4'')]
         (snd (initializeConnection main_expected (main_registered [])))))
       = [4, 6, 8, 4]
   \<and> acquired ''main'' (trace (Publish_seq ''main''
         [(''a'', ''1''), (''b'', ''2''), (''c'', ''3''), (''d'', ''4'')]
         (snd (initializeConnection main_expected (main_registered []))))) ! 1
     \<noteq> acquired ''main'' (trace (Publish_seq ''main''
         [(''a'', ''1''), (''b'', ''2''), (''c'', ''3''), (''d'', ''4'')]
         (snd (initializeConnection main_expected (main_registered []))))) ! 3
   \<and> rng (snd (initializeConnection main_expected (main_registered []))) ''main''
       = Some [Some 4, Some 6, Some 8]
   \<and> rng (Publish_seq ''main'' [(''a'', ''1'')]
         (snd (initializeConnection main_expected (main_registered [])))) ''main''
       = Some [Some 6, Some 8, Some 4]
   \<and> \<not> rngLock (Publish_seq ''main'' [(''a'', ''1'')]
         (snd (initializeConnection main_expected (main_registered []))))
   \<and> rngLock ((main_registered [])\<lparr>rngLock := True\<rparr>)
   \<and> Publish \<lparr>name = ''main''\<rparr> ''a'' ''1'' ((main_registered [])\<lparr>rngLock := True\<rparr>)
       = (Blocks, (main_registered [])\<lparr>rngLock := True\<rparr>)
   \<and> rng (main_registered []) (name \<lparr>name = ''main''\<rparr>) = None
   \<and> Publish \<lparr>name = ''main''\<rparr> ''a'' ''1'' (main_registered [])
       = (Panics nil_dereference, (main_registered [])\<lparr>rngLock := True\<rparr>)"
proof -
  let ?before = "main_registered []"
  let ?ready = "snd (initializeConnection main_expected ?before)"
  let ?calls = "[(''a'', ''1''), (''b'', ''2''), (''c'', ''3''), (''d'', ''4'')]"
  have ok: "fst (initializeConnection main_expected ?before) = Returns None"
    by (simp add: init_defs concrete_defs numeral_2_eq_2 numeral_3_eq_3)
  then have run: "initializeConnection main_expected ?before = (Returns None, ?ready)"
    by (metis prod.collapse)
  have s: "\<not> rngLock ?ready" "rng ?ready ''main'' = Some (map Some [4, 6, 8])" "acquired ''main'' (trace ?ready) = []"
    by (simp_all add: init_defs concrete_defs numeral_2_eq_2 numeral_3_eq_3)
  have u: "\<not> connRngLock ?before" "connRngReaders ?before = 0" "\<not> rngLock ?before"
    using main_registered_facts(2) [of "[]"] by (simp_all add: unlocked_def)
  have c: "containerName main_expected = ''main''" by (simp add: main_expected_def)
  have all: "acquired ''main'' (trace (Publish_seq ''main'' ?calls ?ready)) = [4, 6, 8, 4]"
    using Publish_seq_round_robin [OF s(1,2), of ?calls]
    by (simp add: s(3) upt_rec)
  note claim = Publish_round_robin [OF u run, of 1 3 ?calls, unfolded c]
  have pre: "1 < (3::nat)" "3 < 1 + pool_size (viper ?before)" "3 < length ?calls"
    by (simp_all add: main_registered_facts)
  note claim = claim [OF pre]
  from claim have d: "acquired ''main'' (trace (Publish_seq ''main'' ?calls ?ready)) ! 1
      \<noteq> acquired ''main'' (trace (Publish_seq ''main'' ?calls ?ready)) ! 3"
    by (simp add: s(3))
  from claim have "rng (Publish_seq ''main'' (take 1 ?calls) ?ready) ''main''
             = map_option (rotate (min 1 (length ?calls))) (rng ?ready ''main'')
           \<and> \<not> rngLock (Publish_seq ''main'' (take 1 ?calls) ?ready)"
    by blast
  then have r: "rng (Publish_seq ''main'' [(''a'', ''1'')] ?ready) ''main''
       = Some [Some 6, Some 8, Some 4]"
    and l: "\<not> rngLock (Publish_seq ''main'' [(''a'', ''1'')] ?ready)"
    by (simp_all add: s(2))
  from claim have w: "rngLock (?before\<lparr>rngLock := True\<rparr>) \<longrightarrow>
      Publish \<lparr>name = ''main''\<rparr> ''a'' ''1'' (?before\<lparr>rngLock := True\<rparr>)
       = (Blocks, ?before\<lparr>rngLock := True\<rparr>)"
    by blast
  have n: "rng ?before (name \<lparr>name = ''main''\<rparr>) = None"
    by (simp add: main_registered_facts)
  from claim have "\<not> rngLock ?before \<and> rng ?before (name \<lparr>name = ''main''\<rparr>) = None \<longrightarrow>
      Publish \<lparr>name = ''main''\<rparr> ''a'' ''1'' ?before
       = (Panics nil_dereference, ?before\<lparr>rngLock := True\<rparr>)"
    by blast
  with u n have p: "Publish \<lparr>name = ''main''\<rparr> ''a'' ''1'' ?before
       = (Panics nil_dereference, ?before\<lparr>rngLock := True\<rparr>)"
    by blast
  from ok all d s(2) r l w n p show ?thesis
    by (simp add: main_registered_facts)
qed

lemma main_ready_facts:
  "\<not> rngLock (main_ready rs)" "\<not> connRngLock (main_ready rs)"
  "rng (main_ready rs) ''main'' = Some [Some 4, Some 6, Some 8]"
  "connRng (main_ready rs) ''main'' = Some [Some 0, Some 1]"
  "slots (main_ready rs) 4 = \<lparr>chn = 3, lock = False, rtrn = 0, wg = 0, closed = False\<rparr>"
  "replies (main_ready rs) = rs" "fresh (main_ready rs) = 9"
  by (simp_all add: main_ready_def Initialize_def init_defs concrete_defs
      numeral_2_eq_2 numeral_3_eq_3)

lemmas publish_defs = Publish_def Publish_locked_def Publish_declared_def wg_Wait_def
  publishConfirm_def confirmation_arrives_def wg_Done_def wg_Add_def conn_Channel_def
  create_def request_def reply_def emit_def Let_def ring_Next_def

lemma Publish_send_fails:
  assumes "\<not> rngLock s" "rng s (name c) = Some r" "ring_Value r = Some cl"
    "\<not> lock (slots s cl)" "\<not> closed (slots s cl)" "wg (slots s cl) = 0"
    "\<not> connRngLock s" "connRng s (name c) = Some cr" "ring_Value cr = Some conn"
    "replies s = None # None # Some err # rs"
  shows "Publish c queue body s =
    (Returns (Some err),
     s\<lparr>rng := (rng s)(name c \<mapsto> rotate1 r), rngLock := False,
          fresh := Suc (fresh s), replies := rs,
          slots := (slots s)(cl := slots s cl\<lparr>wg := 0, lock := False\<rparr>),
          trace :=
            trace s @
            [RingAdvance (name c) cl, SlotLock cl, OpenChannel conn,
             QueueDeclare (fresh s) queue True False False False,
             WgAdd cl 1,
             BasicPublish (chn (slots s cl)) [] queue False False 2
              ''application/json'' body,
             WgAdd cl (- 1), CloseChannel (fresh s), SlotUnlock cl]\<rparr>)"
  using assms by (simp add: publish_defs)

lemma Publish_confirmed:
  assumes "\<not> rngLock s" "rng s (name c) = Some r" "ring_Value r = Some cl"
    "\<not> lock (slots s cl)" "\<not> closed (slots s cl)" "wg (slots s cl) = 0" "rtrn (slots s cl) = 0"
    "\<not> connRngLock s" "connRng s (name c) = Some cr" "ring_Value cr = Some conn"
    "replies s = None # None # None # None # rs"
  shows "Publish c queue body s =
    (Returns None,
     s\<lparr>rng := (rng s)(name c \<mapsto> rotate1 r), rngLock := False,
          fresh := Suc (fresh s), replies := rs,
          slots := (slots s)(cl := slots s cl\<lparr>wg := 0, lock := False\<rparr>),
          trace :=
            trace s @
            [RingAdvance (name c) cl, SlotLock cl, OpenChannel conn,
             QueueDeclare (fresh s) queue True False False False,
             WgAdd cl 1,
             BasicPublish (chn (slots s cl)) [] queue False False 2
              ''application/json'' body,
             WgWait cl, WgAdd cl (- 1), CloseChannel (fresh s),
             SlotUnlock cl]\<rparr>)"
  using assms by (simp add: publish_defs)

text \<open>
  Claim C3. When the transient channel opens, the queue is declared and the send then
  fails, \<open>Publish\<close> returns the error of the send; it has incremented the completion counter
  before the send and decrements it again on this path, so the counter is back at zero and
  the slot's lock is released. A later \<open>Publish\<close> on the same slot (here: the pool has that
  one slot) that is confirmed by the broker returns nil instead of waiting forever.
\<close>

theorem Publish_send_error_releases_counter:
  assumes "\<not> rngLock s" and "rng s (name c) = Some r" and "ring_Value r = Some cl"
    and "\<not> lock (slots s cl)" and "\<not> closed (slots s cl)"
    and "wg (slots s cl) = 0" and "rtrn (slots s cl) = 0"
    and "\<not> connRngLock s" and "connRng s (name c) = Some cr" and "ring_Value cr = Some conn"
    and "replies s = None # None # Some err # rs"
  shows "fst (Publish c queue body s) = Returns (Some err)
    \<and> wg (slots (snd (Publish c queue body s)) cl) = 0
    \<and> \<not> lock (slots (snd (Publish c queue body s)) cl)
    \<and> performed s (snd (Publish c queue body s)) =
         [RingAdvance (name c) cl, SlotLock cl, OpenChannel conn,
          QueueDeclare (fresh s) queue True False False False,
          WgAdd cl 1,
          BasicPublish (chn (slots s cl)) [] queue False False 2 ''application/json'' body,
          WgAdd cl (- 1), CloseChannel (fresh s), SlotUnlock cl]
    \<and> (ring_Next r = r \<and> rs = None # None # None # None # rs' \<longrightarrow>
          fst (Publish c queue' body' (snd (Publish c queue body s))) = Returns None)"
proof -
  note eq = Publish_send_fails [OF assms(1-6) assms(8-11), of queue body]
  have later: "fst (Publish c queue' body' (snd (Publish c queue body s))) = Returns None"
    if "ring_Next r = r" "rs = None # None # None # None # rs'"
  proof -
    let ?s' = "snd (Publish c queue body s)"
    have "fst (Publish c queue' body' ?s') = Returns None"
      unfolding eq using that assms
      by (subst Publish_confirmed [where r = r and cl = cl and cr = cr and conn = conn and rs = rs'])
         (simp_all add: ring_Next_def)
    then show ?thesis .
  qed
  show ?thesis using later by (simp add: eq performed_def)
qed

lemma single_ready_facts:
  "\<not> rngLock (single_ready rs)" "\<not> connRngLock (single_ready rs)"
  "rng (single_ready rs) ''main'' = Some [Some 3]"
  "connRng (single_ready rs) ''main'' = Some [Some 0]"
  "slots (single_ready rs) 3 = \<lparr>chn = 2, lock = False, rtrn = 0, wg = 0, closed = False\<rparr>"
  "replies (single_ready rs) = rs" "fresh (single_ready rs) = 4"
  by (simp_all add: single_ready_def Initialize_def init_defs start_def RegisterRabbitMq_def
      RegisterRabbit_def settings1_def)

theorem Publish_send_error_releases_counter_witness:
  "replies (single_ready [None, None, Some (Errorf ''channel/connection is not open''),
                          None, None, None, None])
     = [None, None, Some (Errorf ''channel/connection is not open''), None, None, None, None]
   \<and> fst (Publish \<lparr>name = ''main''\<rparr> ''orders'' ''{}''
           (single_ready [None, None, Some (Errorf ''channel/connection is not open''),
                          None, None, None, None]))
       = Returns (Some (Errorf ''channel/connection is not open''))
   \<and> wg (slots (snd (Publish \<lparr>name = ''main''\<rparr> ''orders'' ''{}''
           (single_ready [None, None, Some (Errorf ''channel/connection is not open''),
                          None, None, None, None]))) 3) = 0
   \<and> fst (Publish \<lparr>name = ''main''\<rparr> ''orders'' ''{}''
          (snd (Publish \<lparr>name = ''main''\<rparr> ''orders'' ''{}''
           (single_ready [None, None, Some (Errorf ''channel/connection is not open''),
                          None, None, None, None]))))
       = Returns None"
proof -
  let ?s = "single_ready [None, None, Some (Errorf ''channel/connection is not open''),
                          None, None, None, None]"
  note f = single_ready_facts [of "[None, None, Some (Errorf ''channel/connection is not open''),
                          None, None, None, None]"]
  have h: "\<not> rngLock ?s" "rng ?s (name \<lparr>name = ''main''\<rparr>) = Some [Some 3]"
    "ring_Value [Some (3::nat)] = Some 3" "\<not> lock (slots ?s 3)" "\<not> closed (slots ?s 3)"
    "wg (slots ?s 3) = 0" "rtrn (slots ?s 3) = 0" "\<not> connRngLock ?s"
    "connRng ?s (name \<lparr>name = ''main''\<rparr>) = Some [Some 0]"
    "ring_Value [Some (0::nat)] = Some 0"
    "replies ?s = None # None # Some (Errorf ''channel/connection is not open'')
                    # [None, None, None, None]"
    by (simp_all add: f ring_Value_def)
  note t = Publish_send_error_releases_counter [OF h,
      where queue = "''orders''" and body = "''{}''" and rs' = "[]"
        and queue' = "''orders''" and body' = "''{}''"]
  from t show ?thesis by (simp add: f ring_Next_def)
qed

lemma performed_append [simp]: "performed s (s\<lparr>trace := trace s @ tr\<rparr>) = tr"
  by (simp add: performed_def)

text \<open>
  Claim C8, as stated, fails: in a \<open>Publish\<close> on the initialised broker "main" the ring is
  advanced first and the slot's lock is taken second; the transient channel is opened and
  the queue declared only after both.
\<close>

theorem Publish_declares_after_locking:
  "performed (main_ready []) (snd (Publish \<lparr>name = ''main''\<rparr> ''orders'' ''{}'' (main_ready [])))
     = [RingAdvance ''main'' 4, SlotLock 4, OpenChannel 0,
        QueueDeclare 9 ''orders'' True False False False, WgAdd 4 1,
        BasicPublish 3 [] ''orders'' False False 2 ''application/json'' ''{}'',
        WgWait 4, WgAdd 4 (- 1), CloseChannel 9, SlotUnlock 4]
   \<and> position is_RingAdvance
         (performed (main_ready []) (snd (Publish \<lparr>name = ''main''\<rparr> ''orders'' ''{}'' (main_ready [])))) = 0
   \<and> position is_SlotLock
         (performed (main_ready []) (snd (Publish \<lparr>name = ''main''\<rparr> ''orders'' ''{}'' (main_ready [])))) = 1
   \<and> position is_QueueDeclare
         (performed (main_ready []) (snd (Publish \<lparr>name = ''main''\<rparr> ''orders'' ''{}'' (main_ready [])))) = 3
   \<and> \<not> position is_QueueDeclare
         (performed (main_ready []) (snd (Publish \<lparr>name = ''main''\<rparr> ''orders'' ''{}'' (main_ready []))))
       < position is_RingAdvance
         (performed (main_ready []) (snd (Publish \<lparr>name = ''main''\<rparr> ''orders'' ''{}'' (main_ready []))))"
proof -
  note f = main_ready_facts [of "[]"]
  have run: "performed (main_ready [])
        (snd (Publish \<lparr>name = ''main''\<rparr> ''orders'' ''{}'' (main_ready [])))
     = [RingAdvance ''main'' 4, SlotLock 4, OpenChannel 0,
        QueueDeclare 9 ''orders'' True False False False, WgAdd 4 1,
        BasicPublish 3 [] ''orders'' False False 2 ''application/json'' ''{}'',
        WgWait 4, WgAdd 4 (- 1), CloseChannel 9, SlotUnlock 4]"
    by (simp add: publish_defs f ring_Value_def performed_def)
  show ?thesis unfolding run by (simp add: position_def)
qed

lemma Publish_locked_trace:
  assumes "\<not> closed (slots s cl)" "\<not> connRngLock s" "connRng s (name c) = Some cr"
    "ring_Value cr = Some conn" "replies s = None # rs"
  shows "\<exists>rest. trace (snd (Publish_locked c cl queue body s))
      = trace s @ [OpenChannel conn, QueueDeclare (fresh s) queue True False False False] @ rest"
proof -
  define s3 where "s3 = s\<lparr>trace := trace s @ [OpenChannel conn], replies := rs, fresh := Suc (fresh s)\<rparr>"
  have eq: "Publish_locked c cl queue body s =
      (case Publish_declared cl (fresh s) queue body s3 of
         (Blocks, s4) \<Rightarrow> (Blocks, s4)
       | (res, s4) \<Rightarrow> (res, emit (CloseChannel (fresh s)) s4))"
    using assms unfolding s3_def
    by (simp add: Publish_locked_def Let_def conn_Channel_def create_def request_def reply_def
        emit_def)
  obtain rest where d: "trace (snd (Publish_declared cl (fresh s) queue body s3))
      = trace s3 @ QueueDeclare (fresh s) queue True False False False # rest"
    using Publish_declared_trace by blast
  obtain r4 s4 where p: "Publish_declared cl (fresh s) queue body s3 = (r4, s4)"
    by (cases "Publish_declared cl (fresh s) queue body s3")
  have "snd (Publish_locked c cl queue body s) = s4
      \<or> snd (Publish_locked c cl queue body s) = emit (CloseChannel (fresh s)) s4"
    unfolding eq p by (cases r4) simp_all
  then show ?thesis using d p by (auto simp: s3_def emit_def)
qed

text \<open>
  Claim C8, as the code has it. Every \<open>Publish\<close> that finds its slot free and open and gets
  its transient channel first advances the ring to select the slot, then acquires the
  slot's lock, then opens the transient channel and declares the target queue on it
  (durable, no auto-delete, non-exclusive, with wait); whatever else it does comes after.
\<close>

theorem Publish_order_of_steps:
  assumes "\<not> rngLock s" and "rng s (name c) = Some r" and "ring_Value r = Some cl"
    and "\<not> lock (slots s cl)" and "\<not> closed (slots s cl)"
    and "\<not> connRngLock s" and "connRng s (name c) = Some cr" and "ring_Value cr = Some conn"
    and "replies s = None # rs"
  shows "\<exists>rest. performed s (snd (Publish c queue body s))
      = [RingAdvance (name c) cl, SlotLock cl, OpenChannel conn,
         QueueDeclare (fresh s) queue True False False False] @ rest"
proof -
  define s3 where "s3 = s\<lparr>rng := (rng s)(name c \<mapsto> ring_Next r), rngLock := False,
      slots := (slots s)(cl := (slots s cl)\<lparr>lock := True\<rparr>),
      trace := trace s @ [RingAdvance (name c) cl, SlotLock cl]\<rparr>"
  have eq: "Publish c queue body s =
      (case Publish_locked c cl queue body s3 of
         (Blocks, s4) \<Rightarrow> (Blocks, s4)
       | (res, s4) \<Rightarrow> (res, emit (SlotUnlock cl)
             (s4\<lparr>slots := (slots s4)(cl := (slots s4 cl)\<lparr>lock := False\<rparr>)\<rparr>)))"
    using assms unfolding s3_def
    by (simp add: Publish_def Let_def emit_def)
  have h: "\<not> closed (slots s3 cl)" "\<not> connRngLock s3" "connRng s3 (name c) = Some cr"
    "replies s3 = None # rs" "fresh s3 = fresh s"
    "trace s3 = trace s @ [RingAdvance (name c) cl, SlotLock cl]"
    using assms by (simp_all add: s3_def)
  obtain rest where d: "trace (snd (Publish_locked c cl queue body s3))
      = trace s3 @ [OpenChannel conn, QueueDeclare (fresh s3) queue True False False False] @ rest"
    using Publish_locked_trace [OF h(1-3) assms(8) h(4)] by blast
  obtain r4 s4 where p: "Publish_locked c cl queue body s3 = (r4, s4)"
    by (cases "Publish_locked c cl queue body s3")
  have "snd (Publish c queue body s) = s4
      \<or> snd (Publish c queue body s) = emit (SlotUnlock cl)
             (s4\<lparr>slots := (slots s4)(cl := (slots s4 cl)\<lparr>lock := False\<rparr>)\<rparr>)"
    unfolding eq p by (cases r4) simp_all
  then show ?thesis using d p h(5,6) by (auto simp: emit_def performed_def)
qed

theorem Publish_order_of_steps_witness:
  "replies (main_ready [None]) = [None]
   \<and> take 4 (performed (main_ready [None])
               (snd (Publish \<lparr>name = ''main''\<rparr> ''orders'' ''{}'' (main_ready [None]))))
       = [RingAdvance ''main'' 4, SlotLock 4, OpenChannel 0,
          QueueDeclare 9 ''orders'' True False False False]"
proof -
  note f = main_ready_facts [of "[None]"]
  have h: "\<not> rngLock (main_ready [None])"
    "rng (main_ready [None]) (name \<lparr>name = ''main''\<rparr>) = Some [Some 4, Some 6, Some 8]"
    "ring_Value [Some (4::nat), Some 6, Some 8] = Some 4"
    "\<not> lock (slots (main_ready [None]) 4)" "\<not> closed (slots (main_ready [None]) 4)"
    "\<not> connRngLock (main_ready [None])"
    "connRng (main_ready [None]) (name \<lparr>name = ''main''\<rparr>) = Some [Some 0, Some 1]"
    "ring_Value [Some (0::nat), Some 1] = Some 0"
    "replies (main_ready [None]) = None # []"
    by (simp_all add: f ring_Value_def)
  from Publish_order_of_steps [OF h, of "''orders''" "''{}''"] f(6,7) show ?thesis
    by auto
qed

lemma Consume_loop_run:
  "\<forall>i < length (received arrivals). \<exists>e. handler (k + i) (snd (received arrivals ! i)) = Returns e \<Longrightarrow>
   Consume_loop handler k arrivals s =
     (ending arrivals,
      s\<lparr>trace := trace s @ concat (map (settle handler) (enumerate k (received arrivals)))\<rparr>)"
proof (induction arrivals arbitrary: k s)
  case Nil
  then show ?case by simp
next
  case (Cons a arrivals)
  show ?case
  proof (cases a)
    case CtxDone
    then show ?thesis by simp
  next
    case MsgsClosed
    then show ?thesis by simp
  next
    case (Delivery tag body)
    from Cons.prems Delivery obtain e where e: "handler k body = Returns e"
      by fastforce
    have rest: "\<forall>i < length (received arrivals).
        \<exists>e. handler (Suc k + i) (snd (received arrivals ! i)) = Returns e"
    proof (intro allI impI)
      fix i assume "i < length (received arrivals)"
      then have "Suc i < length (received (a # arrivals))" by (simp add: Delivery)
      with Cons.prems have "\<exists>e. handler (k + Suc i) (snd (received (a # arrivals) ! Suc i)) = Returns e"
        by blast
      then show "\<exists>e. handler (Suc k + i) (snd (received arrivals ! i)) = Returns e"
        by (simp add: Delivery)
    qed
    note IH = Cons.IH [OF rest]
    show ?thesis
    proof (cases e)
      case None
      with e Delivery show ?thesis by (simp add: IH emit_def settle_def)
    next
      case (Some err)
      with e Delivery show ?thesis by (simp add: IH emit_def settle_def)
    qed
  qed
qed

text \<open>
  Claim C6. Once \<open>Consume\<close> has opened its channel, declared the queue and started
  consuming under the name that the declaration returned (the declared name, or the
  broker's own name for a queue declared without one), and as long as the handler returns
  (it does not panic): every delivery received before the context is done or the delivery
  channel is closed is passed to the handler; it is acknowledged when the handler returns
  nil and negative-acknowledged with requeue when the handler returns an error; the loop
  goes on with the next delivery either way; and what \<open>Consume\<close> returns is decided by the
  arrivals alone (nil when the context is done, "channel closed" when the delivery channel
  is closed), never by the handler.
\<close>

theorem Consume_contains_handler_errors:
  assumes "\<not> connRngLock s" and "connRng s (name c) = Some cr" and "ring_Value cr = Some conn"
    and "replies s = None # None # None # rs"
    and "\<forall>i < length (received arrivals). \<exists>e. handler i (snd (received arrivals ! i)) = Returns e"
  shows "fst (Consume c arrivals queue handler s) = ending arrivals
    \<and> performed s (snd (Consume c arrivals queue handler s)) =
         [OpenChannel conn, QueueDeclare (fresh s) queue True False False False,
          BasicConsume (fresh s) (if queue = [] then serverNamed s (fresh s) else queue)
            [] False False False False]
         @ concat (map (settle handler) (enumerate 0 (received arrivals)))
         @ (if ending arrivals = Blocks then [] else [CloseChannel (fresh s)])"
proof -
  define s4 where "s4 = s\<lparr>fresh := Suc (fresh s), trace := trace s @
      [OpenChannel conn, QueueDeclare (fresh s) queue True False False False,
       BasicConsume (fresh s) (if queue = [] then serverNamed s (fresh s) else queue)
         [] False False False False],
      replies := rs\<rparr>"
  have eq: "Consume c arrivals queue handler s =
      (case Consume_loop handler 0 arrivals s4 of
         (Blocks, s5) \<Rightarrow> (Blocks, s5)
       | (res, s5) \<Rightarrow> (res, emit (CloseChannel (fresh s)) s5))"
    using assms(1-4) unfolding s4_def
    by (simp add: Consume_def ch_QueueDeclare_def Let_def conn_Channel_def create_def
        request_def reply_def emit_def)
  have run: "Consume_loop handler 0 arrivals s4 =
     (ending arrivals,
      s4\<lparr>trace := trace s4 @ concat (map (settle handler) (enumerate 0 (received arrivals)))\<rparr>)"
    using assms(5) by (intro Consume_loop_run) simp
  show ?thesis
    unfolding eq run
    by (cases "ending arrivals") (simp_all add: s4_def emit_def performed_def)
qed

lemma main_ready_named:
  "serverNamed (main_ready rs) 9 = ''amq.gen-9''"
  by (simp add: main_ready_def Initialize_def init_defs concrete_defs
      numeral_2_eq_2 numeral_3_eq_3 digit_def)

theorem Consume_contains_handler_errors_witness:
  "replies (main_ready [None, None, None]) = [None, None, None]
   \<and> flaky 0 ''a'' = Returns (Some (Errorf ''not now'')) \<and> flaky 1 ''b'' = Returns None
   \<and> fst (Consume \<lparr>name = ''main''\<rparr> [Delivery 1 ''a'', Delivery 2 ''b'', CtxDone] ''orders'' flaky
            (main_ready [None, None, None])) = Returns None
   \<and> performed (main_ready [None, None, None])
        (snd (Consume \<lparr>name = ''main''\<rparr> [Delivery 1 ''a'', Delivery 2 ''b'', CtxDone] ''orders'' flaky
               (main_ready [None, None, None])))
       = [OpenChannel 0, QueueDeclare 9 ''orders'' True False False False,
          BasicConsume 9 ''orders'' [] False False False False,
          Handle ''a'', Nack 1 False True, Handle ''b'', Ack 2 False, CloseChannel 9]
   \<and> performed (main_ready [None, None, None])
        (snd (Consume \<lparr>name = ''main''\<rparr> [MsgsClosed] [] flaky (main_ready [None, None, None])))
       = [OpenChannel 0, QueueDeclare 9 [] True False False False,
          BasicConsume 9 ''amq.gen-9'' [] False False False False, CloseChannel 9]"
proof -
  note f = main_ready_facts [of "[None, None, None]"]
  have h: "\<not> connRngLock (main_ready [None, None, None])"
    "connRng (main_ready [None, None, None]) (name \<lparr>name = ''main''\<rparr>) = Some [Some 0, Some 1]"
    "ring_Value [Some (0::nat), Some 1] = Some 0"
    "replies (main_ready [None, None, None]) = None # None # None # []"
    by (simp_all add: f ring_Value_def)
  have g: "\<forall>i < length (received [Delivery 1 ''a'', Delivery 2 ''b'', CtxDone]).
       \<exists>e. flaky i (snd (received [Delivery 1 ''a'', Delivery 2 ''b'', CtxDone] ! i)) = Returns e"
    "\<forall>i < length (received [MsgsClosed]).
       \<exists>e. flaky i (snd (received [MsgsClosed] ! i)) = Returns e"
    by (simp_all add: flaky_def)
  from Consume_contains_handler_errors [where handler = flaky
      and arrivals = "[Delivery 1 ''a'', Delivery 2 ''b'', CtxDone]" and queue = "''orders''",
      OF h g(1)]
    Consume_contains_handler_errors [where handler = flaky
      and arrivals = "[MsgsClosed]" and queue = "[]", OF h g(2)]
    f(6,7) show ?thesis
    by (simp add: settle_def flaky_def enumerate_eq_zip upt_rec main_ready_named)
qed

section \<open>Publishers on one slot: proofs\<close>

lemma slot_inv_fresh: "slot_inv (fresh_slot pchn)"
  by (simp add: slot_inv_def fresh_slot_def outstanding_def)

lemma counted_holds: "counted p \<Longrightarrow> holds p"
  by (cases p) simp_all

lemma AtWait_holds: "p = AtWait \<Longrightarrow> holds p"
  by simp

lemma slot_inv_others:
  assumes "slot_inv s" "holds (pcs s t)"
  shows "\<forall>u. u \<noteq> t \<longrightarrow> \<not> holds (pcs s u)"
  using assms unfolding slot_inv_def by blast

lemma slot_inv_unlocked:
  assumes "slot_inv s" "\<not> lock (slot s)"
  shows "\<forall>u. \<not> holds (pcs s u)"
  using assms unfolding slot_inv_def by blast

lemma slot_inv_holder:
  assumes "holds (pcs s t)" and "\<forall>u. u \<noteq> t \<longrightarrow> \<not> holds (pcs s u)"
  shows "slot_inv s \<longleftrightarrow>
     (lock (slot s) \<and> sent s = observed s + outstanding s
      \<and> wg (slot s) = int (outstanding s) + (if counted (pcs s t) then 1 else 0)
      \<and> (outstanding s = 0 \<or> outstanding s = 1 \<and> pcs s t = AtWait))"
proof -
  have h: "(\<exists>u. holds (pcs s u)) \<longleftrightarrow> True" using assms(1) by blast
  have u: "(\<forall>a b. holds (pcs s a) \<and> holds (pcs s b) \<longrightarrow> a = b) \<longleftrightarrow> True"
    using assms(2) by metis
  have c: "(\<exists>u. counted (pcs s u)) \<longleftrightarrow> counted (pcs s t)"
    using assms(2) counted_holds by metis
  have w: "(\<exists>u. pcs s u = AtWait) \<longleftrightarrow> pcs s t = AtWait"
    using assms(2) AtWait_holds by metis
  show ?thesis unfolding slot_inv_def h u c w by simp
qed

lemma slot_inv_free:
  assumes "\<forall>u. \<not> holds (pcs s u)"
  shows "slot_inv s \<longleftrightarrow>
     (\<not> lock (slot s) \<and> sent s = observed s + outstanding s
      \<and> wg (slot s) = int (outstanding s) \<and> outstanding s = 0)"
proof -
  have h: "(\<exists>u. holds (pcs s u)) \<longleftrightarrow> False" using assms by blast
  have u: "(\<forall>a b. holds (pcs s a) \<and> holds (pcs s b) \<longrightarrow> a = b) \<longleftrightarrow> True"
    using assms by blast
  have c: "(\<exists>u. counted (pcs s u)) \<longleftrightarrow> False"
    using assms counted_holds by blast
  have w: "(\<exists>u. pcs s u = AtWait) \<longleftrightarrow> False"
    using assms AtWait_holds by blast
  show ?thesis unfolding slot_inv_def h u c w by simp
qed

text \<open>A step of the publisher that holds the lock, to a place where it still holds it.\<close>

lemma holder_moves:
  assumes i: "slot_inv s" and h: "holds (pcs s t)" and h': "holds p'"
    and s': "s' = at t p' s1" and p1: "pcs s1 = pcs s"
    and k: "lock (slot s1) \<and> sent s1 = observed s1 + outstanding s1
      \<and> wg (slot s1) = int (outstanding s1) + (if counted p' then 1 else 0)
      \<and> (outstanding s1 = 0 \<or> outstanding s1 = 1 \<and> p' = AtWait)"
  shows "slot_inv s'"
proof -
  note o = slot_inv_others [OF i h]
  have a: "holds (pcs s' t)" using h' by (simp add: s' at_def)
  have b: "\<forall>u. u \<noteq> t \<longrightarrow> \<not> holds (pcs s' u)" using o by (simp add: s' at_def p1)
  show ?thesis
    unfolding slot_inv_holder [OF a b]
    using k by (simp add: s' at_def outstanding_def)
qed

lemma holder_view:
  assumes i: "slot_inv s" and h: "holds (pcs s t)"
  shows "lock (slot s)" "sent s = observed s + outstanding s"
    "wg (slot s) = int (outstanding s) + (if counted (pcs s t) then 1 else 0)"
    "outstanding s = 0 \<or> outstanding s = 1 \<and> pcs s t = AtWait"
  using i unfolding slot_inv_holder [OF h slot_inv_others [OF i h]] by simp_all

lemma step_slot_inv:
  assumes i: "slot_inv s" and st: "step e s = Some s'"
  shows "slot_inv s'"
proof (cases e)
  case (Enter t)
  from st Enter have p: "\<not> holds (pcs s t)" and s': "s' = at t AtLock s"
    by (auto split: pc.splits)
  have h: "holds (pcs s' u) \<longleftrightarrow> holds (pcs s u)" for u
    using p by (simp add: s' at_def)
  have c: "counted (pcs s' u) \<longleftrightarrow> counted (pcs s u)" for u
    using p counted_holds [of "pcs s t"] by (auto simp: s' at_def)
  have w: "pcs s' u = AtWait \<longleftrightarrow> pcs s u = AtWait" for u
    using p by (auto simp: s' at_def)
  have o: "slot s' = slot s" "sent s' = sent s" "observed s' = observed s" "outstanding s' = outstanding s"
    by (simp_all add: s' at_def outstanding_def)
  show ?thesis using i unfolding slot_inv_def h c w o by simp
next
  case (Acquire t)
  from st Acquire have p: "pcs s t = AtLock" "\<not> lock (slot s)"
    and s': "s' = at t AtClosed (s\<lparr>slot := (slot s)\<lparr>lock := True\<rparr>\<rparr>)"
    by (auto split: if_splits)
  note n = slot_inv_unlocked [OF i p(2)]
  have a: "holds (pcs s' t)" by (simp add: s' at_def)
  have b: "\<forall>u. u \<noteq> t \<longrightarrow> \<not> holds (pcs s' u)" using n by (simp add: s' at_def)
  from i have "sent s = observed s + outstanding s \<and> wg (slot s) = int (outstanding s)
      \<and> outstanding s = 0"
    unfolding slot_inv_free [OF n] by simp
  then show ?thesis
    unfolding slot_inv_holder [OF a b] by (simp add: s' at_def outstanding_def)
next
  case (Check t)
  from st Check have p: "pcs s t = AtClosed"
    and s': "s' = at t (if closed (slot s) then AtUnlock (Returns (Some (Errorf ''channel closed'')))
                       else AtDeclare) s"
    by (auto split: if_splits)
  have h: "holds (pcs s t)" by (simp add: p)
  show ?thesis
    using holder_view [OF i h] p
    by (intro holder_moves [OF i h _ s']) auto
next
  case (Declared t r)
  from st Declared have p: "pcs s t = AtDeclare" by (auto split: if_splits)
  have h: "holds (pcs s t)" by (simp add: p)
  from st Declared p obtain p' where s': "s' = at t p' s" and p': "p' = AtAdd \<or> (\<exists>x. p' = AtUnlock x)"
    by (auto split: outcome.splits option.splits)
  show ?thesis
    using holder_view [OF i h] p p'
    by (intro holder_moves [OF i h _ s']) auto
next
  case (Incr t)
  from st Incr have p: "pcs s t = AtAdd"
    and s': "s' = at t AtSend (s\<lparr>slot := (slot s)\<lparr>wg := wg (slot s) + 1\<rparr>\<rparr>)"
    by (auto split: if_splits)
  have h: "holds (pcs s t)" by (simp add: p)
  show ?thesis
    using holder_view [OF i h] p
    by (intro holder_moves [OF i h _ s']) (auto simp: outstanding_def)
next
  case (Sent t r)
  from st Sent have p: "pcs s t = AtSend" by (auto split: if_splits)
  have h: "holds (pcs s t)" by (simp add: p)
  show ?thesis
  proof (cases r)
    case None
    with st Sent p have s': "s' = at t AtWait (s\<lparr>unconfirmed := unconfirmed s + 1, sent := sent s + 1\<rparr>)"
      by simp
    show ?thesis
      using holder_view [OF i h] p
      by (intro holder_moves [OF i h _ s']) (auto simp: outstanding_def)
  next
    case (Some err)
    with st Sent p have s': "s' = at t (AtDone err) s" by simp
    show ?thesis
      using holder_view [OF i h] p
      by (intro holder_moves [OF i h _ s']) auto
  qed
next
  case (Decr t)
  from st Decr obtain err where p: "pcs s t = AtDone err"
    and s': "s' = at t (AtUnlock (Returns (Some err))) (s\<lparr>slot := (slot s)\<lparr>wg := wg (slot s) - 1\<rparr>\<rparr>)"
    by (auto split: pc.splits if_splits)
  have h: "holds (pcs s t)" by (simp add: p)
  show ?thesis
    using holder_view [OF i h] p
    by (intro holder_moves [OF i h _ s']) (auto simp: outstanding_def)
next
  case (Waited t)
  from st Waited have p: "pcs s t = AtWait" "wg (slot s) = 0"
    and s': "s' = at t (AtUnlock (Returns None)) s"
    by (auto split: if_splits)
  have h: "holds (pcs s t)" by (simp add: p)
  show ?thesis
    using holder_view [OF i h] p
    by (intro holder_moves [OF i h _ s']) auto
next
  case (Release t)
  from st Release obtain r where p: "pcs s t = AtUnlock r"
    and s': "s' = at t (Ended r) (s\<lparr>slot := (slot s)\<lparr>lock := False\<rparr>\<rparr>)"
    by (auto split: pc.splits)
  have h: "holds (pcs s t)" by (simp add: p)
  note o = slot_inv_others [OF i h]
  have n: "\<forall>u. \<not> holds (pcs s' u)" using o by (simp add: s' at_def)
  show ?thesis
    unfolding slot_inv_free [OF n]
    using holder_view [OF i h] p by (simp add: s' at_def outstanding_def)
next
  case BrokerConfirms
  from st BrokerConfirms have p: "0 < unconfirmed s"
    and s': "s' = s\<lparr>slot := (slot s)\<lparr>rtrn := rtrn (slot s) + 1\<rparr>, unconfirmed := unconfirmed s - 1\<rparr>"
    by (auto split: if_splits)
  have o: "outstanding s' = outstanding s" "pcs s' = pcs s" "lock (slot s') = lock (slot s)"
    "wg (slot s') = wg (slot s)" "sent s' = sent s" "observed s' = observed s"
    using p by (simp_all add: s' outstanding_def)
  show ?thesis using i unfolding slot_inv_def o by simp
next
  case ListenerTakes
  from st ListenerTakes have p: "0 < rtrn (slot s)"
    and s': "s' = s\<lparr>slot := (slot s)\<lparr>rtrn := rtrn (slot s) - 1, wg := wg (slot s) - 1\<rparr>,
                         observed := observed s + 1\<rparr>"
    by (auto split: if_splits)
  from p have o1: "0 < outstanding s" by (simp add: outstanding_def)
  have o: "outstanding s' = outstanding s - 1" "pcs s' = pcs s" "lock (slot s') = lock (slot s)"
    "wg (slot s') = wg (slot s) - 1" "sent s' = sent s" "observed s' = observed s + 1"
    using p by (simp_all add: s' outstanding_def)
  show ?thesis using i o1 unfolding slot_inv_def o by auto
qed

lemma run_slot_inv: "slot_inv s \<Longrightarrow> run es s = Some s' \<Longrightarrow> slot_inv s'"
proof (induction es arbitrary: s)
  case Nil
  then show ?case by simp
next
  case (Cons e es)
  from Cons.prems(2) obtain s1 where s1: "step e s = Some s1" "run es s1 = Some s'"
    by (auto split: option.splits)
  from step_slot_inv [OF Cons.prems(1) s1(1)] s1(2) show ?case by (rule Cons.IH)
qed

lemma under_way_holds: "under_way p \<Longrightarrow> holds p"
  by (cases p) simp_all

text \<open>
  Claim C2. In every state that publishers, broker and listener can reach on a slot, in any
  interleaving of their steps: at most one publisher is between \<open>Acquire\<close> and \<open>Release\<close>; a
  publisher whose publish is under way (from before the increment of the counter to the
  end of the wait) holds the slot's lock, so at most one publish is under way; at most one
  send has a confirmation not yet observed by the listener; a publisher about to increment
  the counter or to send finds every earlier send confirmed and observed; and while one
  publisher holds the lock another cannot take it, nor can a waiting publisher leave its
  wait before its confirmation is observed.
\<close>

theorem one_publish_in_flight:
  assumes "run es (fresh_slot pchn) = Some s"
  shows "(\<forall>t t'. holds (pcs s t) \<and> holds (pcs s t') \<longrightarrow> t = t')
    \<and> (\<forall>t. under_way (pcs s t) \<longrightarrow> holds (pcs s t) \<and> lock (slot s))
    \<and> (\<forall>t t'. under_way (pcs s t) \<and> under_way (pcs s t') \<longrightarrow> t = t')
    \<and> sent s \<le> observed s + 1
    \<and> (\<forall>t. pcs s t = AtAdd \<or> pcs s t = AtSend \<longrightarrow> sent s = observed s \<and> rtrn (slot s) = 0)
    \<and> (\<forall>t t'. pcs s t = AtLock \<and> holds (pcs s t') \<longrightarrow> step (Acquire t) s = None)
    \<and> (\<forall>t. pcs s t = AtWait \<and> sent s \<noteq> observed s \<longrightarrow> step (Waited t) s = None)"
proof -
  have i: "slot_inv s" using slot_inv_fresh assms by (rule run_slot_inv)
  have 1: "\<forall>t t'. holds (pcs s t) \<and> holds (pcs s t') \<longrightarrow> t = t'"
    using i unfolding slot_inv_def by blast
  have 2: "\<forall>t. under_way (pcs s t) \<longrightarrow> holds (pcs s t) \<and> lock (slot s)"
    using i under_way_holds unfolding slot_inv_def by blast
  have 3: "\<forall>t t'. under_way (pcs s t) \<and> under_way (pcs s t') \<longrightarrow> t = t'"
    using 1 under_way_holds by blast
  have 4: "sent s \<le> observed s + 1"
    using i unfolding slot_inv_def by auto
  have 5: "sent s = observed s \<and> rtrn (slot s) = 0" if "pcs s t = AtAdd \<or> pcs s t = AtSend" for t
  proof -
    from that have h: "holds (pcs s t)" by auto
    from holder_view(2,4) [OF i h] that show ?thesis by (auto simp: outstanding_def)
  qed
  have 6: "step (Acquire t) s = None" if "pcs s t = AtLock \<and> holds (pcs s t')" for t t'
    using that holder_view(1) [OF i, of t'] by simp
  have 7: "step (Waited t) s = None" if "pcs s t = AtWait \<and> sent s \<noteq> observed s" for t
  proof -
    from that have h: "holds (pcs s t)" by simp
    from holder_view(2,3) [OF i h] that have "wg (slot s) \<noteq> 0" by auto
    then show ?thesis by simp
  qed
  from 1 2 3 4 5 6 7 show ?thesis by blast
qed

theorem one_publish_in_flight_witness:
  "(case run two_publishers (fresh_slot 3) of
      None \<Rightarrow> False
    | Some s \<Rightarrow>
        pcs s 0 = AtWait \<and> pcs s 1 = AtLock \<and> sent s = 1 \<and> observed s = 0
        \<and> step (Acquire 1) s = None \<and> step (Waited 0) s = None
        \<and> (case run [BrokerConfirms, ListenerTakes, Waited 0, Release 0, Acquire 1] s of
              None \<Rightarrow> False
            | Some s' \<Rightarrow> pcs s' 0 = Ended (Returns None) \<and> pcs s' 1 = AtClosed
                          \<and> sent s' = 1 \<and> observed s' = 1))"
proof -
  obtain s where s: "run two_publishers (fresh_slot 3) = Some s"
    by (simp add: two_publishers_def fresh_slot_def at_def)
  have p: "pcs s 0 = AtWait" "pcs s 1 = AtLock" "sent s = 1" "observed s = 0"
    using s by (auto simp: two_publishers_def fresh_slot_def at_def)
  from one_publish_in_flight [OF s]
  have L: "\<forall>t t'. pcs s t = AtLock \<and> holds (pcs s t') \<longrightarrow> step (Acquire t) s = None"
    and W: "\<forall>t. pcs s t = AtWait \<and> sent s \<noteq> observed s \<longrightarrow> step (Waited t) s = None"
    by blast+
  have b: "step (Acquire 1) s = None" "step (Waited 0) s = None"
    using L [rule_format, of 1 0] W [rule_format, of 0] p by (simp_all del: step.simps)
  have c: "(case run [BrokerConfirms, ListenerTakes, Waited 0, Release 0, Acquire 1] s of
              None \<Rightarrow> False
            | Some s' \<Rightarrow> pcs s' 0 = Ended (Returns None) \<and> pcs s' 1 = AtClosed
                          \<and> sent s' = 1 \<and> observed s' = 1)"
    using s by (auto simp: two_publishers_def fresh_slot_def at_def)
  from p b c show ?thesis by (simp add: s del: step.simps run.simps)
qed

end
